theory Spec2Isabelle
  imports Main
begin

section \<open>Byte strings and Python slicing\<close>

text \<open>
  A Python \<open>bytes\<close> object is a list of 8-bit characters. Slices follow Python: a
  negative bound counts from the end, and every bound is clipped to the length.
\<close>

type_synonym bytes = "char list"

definition newline :: char where
  "newline = CHR 0x0A"

definition py_index :: "nat \<Rightarrow> int \<Rightarrow> nat" where
  "py_index len i = (if i < 0 then nat (max 0 (int len + i)) else min len (nat i))"

definition slice :: "'a list \<Rightarrow> int \<Rightarrow> int \<Rightarrow> 'a list" where
  \<comment> \<open>\<open>xs[i:j]\<close>\<close>
  "slice xs i j =
     (let a = py_index (length xs) i; b = py_index (length xs) j
      in take (b - a) (drop a xs))"

definition slice_from :: "'a list \<Rightarrow> int \<Rightarrow> 'a list" where
  \<comment> \<open>\<open>xs[i:]\<close>\<close>
  "slice_from xs i = drop (py_index (length xs) i) xs"

fun index_of :: "'a \<Rightarrow> 'a list \<Rightarrow> nat option" where
  "index_of c [] = None"
| "index_of c (x # xs) = (if x = c then Some 0 else map_option Suc (index_of c xs))"

definition find_byte :: "bytes \<Rightarrow> char \<Rightarrow> int \<Rightarrow> int" where
  \<comment> \<open>\<open>b.find(c, start)\<close>: the lowest index at or after \<open>start\<close>, or \<open>-1\<close>\<close>
  "find_byte b c start =
     (if start > int (length b) then -1
      else let a = py_index (length b) start
           in case index_of c (drop a b) of None \<Rightarrow> -1 | Some i \<Rightarrow> int (a + i))"

definition len :: "'a list \<Rightarrow> int" where
  "len xs = int (length xs)"

section \<open>Exceptions, futures and coroutine outcomes\<close>

datatype exn =
    RuntimeError string
  | ValueError string
  | AssertionError string
  | IncompleteReadError bytes int
  | EofStream
  | LookupError
  | CancelledError
  | InvalidStateError
  | IndexError
  | TypeError
  | TransportError nat

text \<open>
  An asyncio future: pending, holding a result, holding an exception, or cancelled.
  The futures created on the reader's loop live in a store; a reader's \<open>_waiter\<close> and
  a suspended coroutine's local \<open>waiter\<close> both refer to a future by its index, so a
  producer that completes the future and the consumer that awaits it see one object.
\<close>

datatype future = Pending | Result bool | Failed exn | Cancelled

definition fut :: "future list \<Rightarrow> nat \<Rightarrow> future" where
  "fut fs i = (if i < length fs then fs ! i else Pending)"

definition complete :: "future list \<Rightarrow> nat \<Rightarrow> future \<Rightarrow> exn option \<times> future list" where
  \<comment> \<open>\<open>Future.set_result\<close> / \<open>Future.set_exception\<close>: only a pending future accepts a value\<close>
  "complete fs i v =
     (if fut fs i = Pending then (None, fs[i := v]) else (Some InvalidStateError, fs))"

text \<open>
  Where a coroutine stands when it is suspended in \<open>StreamReader._wait\<close>: the method
  that awaits, with its local variables.
\<close>

datatype frame =
    InRead int
  | InReadany
  | InReadAll "bytes list"
  | InReadline "bytes list" int
  | InReadexactly "bytes list" int

text \<open>
  What a call of a method does: it returns a value, raises, suspends on a future (for a
  coroutine), or never returns.
\<close>

datatype 'a outcome = Return 'a | Raise exn | Suspend nat frame | Diverge

section \<open>The transport and the protocol\<close>

text \<open>
  The transport counts the calls it receives. \<open>supports_pause = False\<close> is a transport
  whose \<open>pause_reading\<close> and \<open>resume_reading\<close> raise \<open>NotImplementedError\<close>; a
  protocol with no transport (\<open>None\<close>) makes the attribute access raise
  \<open>AttributeError\<close>. The source swallows both.
\<close>

record transport =
  supports_pause :: bool
  pause_calls :: nat
  resume_calls :: nat

record protocol =
  reading_paused :: bool
  transport :: "transport option"

definition try_pause :: "protocol \<Rightarrow> protocol" where
  \<comment> \<open>\<open>try: transport.pause_reading() except (AttributeError, NotImplementedError): pass
      else: protocol._reading_paused = True\<close>\<close>
  "try_pause p =
     (case transport p of
        None \<Rightarrow> p
      | Some t \<Rightarrow>
          let t' = t\<lparr>pause_calls := pause_calls t + 1\<rparr>
          in if supports_pause t then p\<lparr>transport := Some t', reading_paused := True\<rparr>
             else p\<lparr>transport := Some t'\<rparr>)"

definition try_resume :: "protocol \<Rightarrow> protocol" where
  "try_resume p =
     (case transport p of
        None \<Rightarrow> p
      | Some t \<Rightarrow>
          let t' = t\<lparr>resume_calls := resume_calls t + 1\<rparr>
          in if supports_pause t then p\<lparr>transport := Some t', reading_paused := False\<rparr>
             else p\<lparr>transport := Some t'\<rparr>)"



section \<open>StreamReader\<close>

text \<open>
  The fields of \<open>FlowControlStreamReader\<close> beyond those of \<open>StreamReader\<close>.
\<close>

record flow_control =
  fc_protocol :: protocol
  b_limit :: int
  allow_pause :: bool

text \<open>
  A \<open>StreamReader\<close>. \<open>flow = None\<close> is an instance of the base class, \<open>flow = Some fc\<close>
  one of \<open>FlowControlStreamReader\<close>; a call through \<open>self\<close> is dispatched on it.
  The optional timer is absent (\<open>timer = None\<close>).
\<close>

record stream_reader =
  limit :: int
  buffer :: "bytes list"
  buffer_size :: int
  buffer_offset :: int
  eof :: bool
  waiter :: "nat option"
  eof_waiter :: "nat option"
  exception :: "exn option"
  total_bytes :: int
  futures :: "future list"
  flow :: "flow_control option"

definition DEFAULT_LIMIT :: int where
  "DEFAULT_LIMIT = 2 ^ 16"

definition StreamReader_init :: "int \<Rightarrow> stream_reader" where
  "StreamReader_init lim =
     \<lparr>limit = lim, buffer = [], buffer_size = 0, buffer_offset = 0, eof = False,
      waiter = None, eof_waiter = None, exception = None, total_bytes = 0,
      futures = [], flow = None\<rparr>"


subsection \<open>Waking the waiters\<close>

definition wake_waiter :: "future \<Rightarrow> stream_reader \<Rightarrow> exn option \<times> stream_reader" where
  \<comment> \<open>\<open>waiter = self._waiter; if waiter is not None: self._waiter = None;
      if not waiter.cancelled(): waiter.set_...(v)\<close>\<close>
  "wake_waiter v s =
     (case waiter s of
        None \<Rightarrow> (None, s)
      | Some w \<Rightarrow>
          let s1 = s\<lparr>waiter := None\<rparr>
          in if fut (futures s1) w = Cancelled then (None, s1)
             else (case complete (futures s1) w v of (r, fs) \<Rightarrow> (r, s1\<lparr>futures := fs\<rparr>)))"

definition wake_eof_waiter :: "future \<Rightarrow> stream_reader \<Rightarrow> exn option \<times> stream_reader" where
  "wake_eof_waiter v s =
     (case eof_waiter s of
        None \<Rightarrow> (None, s)
      | Some w \<Rightarrow>
          let s1 = s\<lparr>eof_waiter := None\<rparr>
          in if fut (futures s1) w = Cancelled then (None, s1)
             else (case complete (futures s1) w v of (r, fs) \<Rightarrow> (r, s1\<lparr>futures := fs\<rparr>)))"

definition set_exception :: "exn \<Rightarrow> stream_reader \<Rightarrow> exn option \<times> stream_reader" where
  "set_exception exc s =
     (case wake_waiter (Failed exc) (s\<lparr>exception := Some exc\<rparr>) of
        (Some e, s1) \<Rightarrow> (Some e, s1)
      | (None, s1) \<Rightarrow> wake_eof_waiter (Failed exc) s1)"

definition feed_eof :: "stream_reader \<Rightarrow> exn option \<times> stream_reader" where
  "feed_eof s =
     (case wake_waiter (Result True) (s\<lparr>eof := True\<rparr>) of
        (Some e, s1) \<Rightarrow> (Some e, s1)
      | (None, s1) \<Rightarrow> wake_eof_waiter (Result True) s1)"

definition is_eof :: "stream_reader \<Rightarrow> bool" where
  "is_eof s = eof s"

definition at_eof :: "stream_reader \<Rightarrow> bool" where
  "at_eof s = (eof s \<and> buffer s = [])"

subsection \<open>Feeding and un-reading\<close>

definition unread_data :: "bytes \<Rightarrow> stream_reader \<Rightarrow> exn option \<times> stream_reader" where
  "unread_data data s =
     (if data = [] then (None, s)
      else if buffer_offset s \<noteq> 0 then
        (case buffer s of
           [] \<Rightarrow> (Some IndexError, s)
         | first # rest \<Rightarrow>
             (None, s\<lparr>buffer := data # slice_from first (buffer_offset s) # rest,
                      buffer_offset := 0,
                      buffer_size := buffer_size s + len data\<rparr>))
      else (None, s\<lparr>buffer := data # buffer s, buffer_size := buffer_size s + len data\<rparr>))"

definition sr_feed_data :: "bytes \<Rightarrow> stream_reader \<Rightarrow> exn option \<times> stream_reader" where
  \<comment> \<open>\<open>StreamReader.feed_data\<close>\<close>
  "sr_feed_data data s =
     (if eof s then (Some (AssertionError ''feed_data after feed_eof''), s)
      else if data = [] then (None, s)
      else wake_waiter (Result False)
             (s\<lparr>buffer := buffer s @ [data],
                buffer_size := buffer_size s + len data,
                total_bytes := total_bytes s + len data\<rparr>))"

definition has_live_waiter :: "stream_reader \<Rightarrow> bool" where
  \<comment> \<open>\<open>self._waiter is not None and not self._waiter.cancelled()\<close>\<close>
  "has_live_waiter s =
     (case waiter s of None \<Rightarrow> False | Some w \<Rightarrow> fut (futures s) w \<noteq> Cancelled)"

definition fc_feed_data :: "bytes \<Rightarrow> stream_reader \<Rightarrow> exn option \<times> stream_reader" where
  \<comment> \<open>\<open>FlowControlStreamReader.feed_data\<close>\<close>
  "fc_feed_data data s =
     (let has_waiter = has_live_waiter s
      in case sr_feed_data data s of
           (Some e, s1) \<Rightarrow> (Some e, s1)
         | (None, s1) \<Rightarrow>
             (case flow s1 of
                None \<Rightarrow> (None, s1)
              | Some fc \<Rightarrow>
                  if allow_pause fc \<and> \<not> reading_paused (fc_protocol fc) \<and> \<not> has_waiter
                     \<and> buffer_size s1 > b_limit fc
                  then (None, s1\<lparr>flow := Some (fc\<lparr>fc_protocol := try_pause (fc_protocol fc)\<rparr>)\<rparr>)
                  else (None, s1)))"

definition feed_data :: "bytes \<Rightarrow> stream_reader \<Rightarrow> exn option \<times> stream_reader" where
  \<comment> \<open>\<open>self.feed_data\<close>, dispatched on the class\<close>
  "feed_data data s = (case flow s of None \<Rightarrow> sr_feed_data data s | Some _ \<Rightarrow> fc_feed_data data s)"

definition check_buffer_size :: "stream_reader \<Rightarrow> stream_reader" where
  \<comment> \<open>\<open>FlowControlStreamReader._check_buffer_size\<close>\<close>
  "check_buffer_size s =
     (case flow s of
        None \<Rightarrow> s
      | Some fc \<Rightarrow>
          if reading_paused (fc_protocol fc) then
            (if buffer_size s < b_limit fc
             then s\<lparr>flow := Some (fc\<lparr>fc_protocol := try_resume (fc_protocol fc)\<rparr>)\<rparr>
             else s)
          else
            (if buffer_size s > b_limit fc
             then s\<lparr>flow := Some (fc\<lparr>fc_protocol := try_pause (fc_protocol fc)\<rparr>)\<rparr>
             else s))"

definition maybe_resume :: "'a outcome \<times> stream_reader \<Rightarrow> 'a outcome \<times> stream_reader" where
  \<comment> \<open>the decorator of \<open>FlowControlStreamReader\<close>'s reads: the check runs when the wrapped
      method has returned, not when it raised; the base class has no decorator\<close>
  "maybe_resume rs =
     (case rs of
        (Return x, s) \<Rightarrow> (Return x, check_buffer_size s)
      | (r, s) \<Rightarrow> (r, s))"

subsection \<open>Reading without waiting\<close>

definition priv_read_nowait_chunk :: "int \<Rightarrow> stream_reader \<Rightarrow> exn + (bytes \<times> stream_reader)" where
  \<comment> \<open>\<open>StreamReader._read_nowait_chunk\<close>\<close>
  "priv_read_nowait_chunk n s =
     (case buffer s of
        [] \<Rightarrow> Inl IndexError
      | first_buffer # rest \<Rightarrow>
          let offset = buffer_offset s in
          if n \<noteq> -1 \<and> len first_buffer - offset > n then
            (let data = slice first_buffer offset (offset + n)
             in Inr (data, s\<lparr>buffer_offset := offset + n,
                             buffer_size := buffer_size s - len data\<rparr>))
          else if offset \<noteq> 0 then
            (let data = slice_from first_buffer offset
             in Inr (data, s\<lparr>buffer := rest, buffer_offset := 0,
                             buffer_size := buffer_size s - len data\<rparr>))
          else
            Inr (first_buffer, s\<lparr>buffer := rest,
                                  buffer_size := buffer_size s - len first_buffer\<rparr>))"

text \<open>
  The loop of \<open>StreamReader._read_nowait\<close>. For \<open>n < -1\<close> it need not end (the offset
  moves backwards and \<open>n\<close> never reaches \<open>0\<close>), so the loop is a partial function and
  \<open>None\<close> is a call that never returns.
\<close>

partial_function (option) read_nowait_loop ::
  "int \<Rightarrow> bytes list \<Rightarrow> stream_reader \<Rightarrow> (bytes outcome \<times> stream_reader) option" where
  "read_nowait_loop n chunks s =
     (if buffer s = [] then Some (Return (concat chunks), s)
      else
        (case priv_read_nowait_chunk n s of
           Inl e \<Rightarrow> Some (Raise e, s)
         | Inr (chunk, s') \<Rightarrow>
             if n \<noteq> -1 then
               (if n - len chunk = 0 then Some (Return (concat (chunks @ [chunk])), s')
                else read_nowait_loop (n - len chunk) (chunks @ [chunk]) s')
             else read_nowait_loop n (chunks @ [chunk]) s'))"

declare read_nowait_loop.simps [code]

definition priv_read_nowait :: "int \<Rightarrow> stream_reader \<Rightarrow> bytes outcome \<times> stream_reader" where
  \<comment> \<open>\<open>StreamReader._read_nowait\<close>\<close>
  "priv_read_nowait n s =
     (case read_nowait_loop n [] s of None \<Rightarrow> (Diverge, s) | Some r \<Rightarrow> r)"

subsection \<open>The data still to be read\<close>

definition remaining :: "stream_reader \<Rightarrow> bytes" where
  \<comment> \<open>the buffered bytes from the read offset on, in order\<close>
  "remaining s =
     (case buffer s of
        [] \<Rightarrow> []
      | first # rest \<Rightarrow> slice_from first (buffer_offset s) @ concat rest)"

definition well_formed :: "stream_reader \<Rightarrow> bool" where
  \<comment> \<open>the buffer as the methods keep it: no empty chunk, the offset inside the first
      chunk, and the size field equal to the number of bytes still to be read\<close>
  "well_formed s =
     (list_all (\<lambda>c. c \<noteq> []) (buffer s)
      \<and> 0 \<le> buffer_offset s
      \<and> (case buffer s of [] \<Rightarrow> buffer_offset s = 0
          | first # rest \<Rightarrow> buffer_offset s < len first)
      \<and> buffer_size s = len (remaining s))"

definition live :: "future list \<Rightarrow> nat option \<Rightarrow> bool" where
  \<comment> \<open>a waiter slot is empty, or refers to a future nobody has completed\<close>
  "live fs w =
     (case w of None \<Rightarrow> True
      | Some i \<Rightarrow> i < length fs \<and> (fs ! i = Pending \<or> fs ! i = Cancelled))"

definition waiters_ok :: "stream_reader \<Rightarrow> bool" where
  "waiters_ok s =
     (live (futures s) (waiter s) \<and> live (futures s) (eof_waiter s)
      \<and> (waiter s = None \<or> waiter s \<noteq> eof_waiter s))"

lemma slice_from_0 [simp]: "slice_from xs 0 = xs"
  by (simp add: slice_from_def py_index_def)

lemma slice_from_nonneg: "0 \<le> i \<Longrightarrow> slice_from xs i = drop (nat i) xs"
  by (simp add: slice_from_def py_index_def min_def)

lemma slice_nonneg:
  "0 \<le> i \<Longrightarrow> 0 \<le> n \<Longrightarrow> slice xs i (i + n) = take (nat n) (drop (nat i) xs)"
  by (auto simp: slice_def py_index_def Let_def min_def nat_add_distrib)

definition drained :: "stream_reader \<Rightarrow> stream_reader" where
  "drained s =
     (if buffer s = [] then s
      else s\<lparr>buffer := [], buffer_offset := 0,
             buffer_size := buffer_size s - len (remaining s)\<rparr>)"

lemma read_nowait_loop_all:
  "read_nowait_loop (-1) chunks s = Some (Return (concat chunks @ remaining s), drained s)"
proof (induction "length (buffer s)" arbitrary: chunks s)
  case 0
  then show ?case
    by (subst read_nowait_loop.simps) (simp add: remaining_def drained_def)
next
  case (Suc k)
  then obtain first rest where b: "buffer s = first # rest"
    by (cases "buffer s") auto
  show ?case
  proof (cases "buffer_offset s = 0")
    case True
    let ?s' = "s\<lparr>buffer := rest, buffer_size := buffer_size s - len first\<rparr>"
    have c: "priv_read_nowait_chunk (-1) s = Inr (first, ?s')"
      using b True by (simp add: priv_read_nowait_chunk_def)
    have k: "k = length (buffer ?s')" using Suc.hyps(2) b by simp
    have ih: "read_nowait_loop (-1) (chunks @ [first]) ?s'
              = Some (Return (concat (chunks @ [first]) @ remaining ?s'), drained ?s')"
      by (rule Suc.hyps(1) [OF k])
    have r: "remaining s = first @ remaining ?s'"
      using b True by (cases rest) (simp_all add: remaining_def slice_from_def py_index_def)
    have d: "drained ?s' = drained s"
      using b True r
      by (cases rest) (auto simp: drained_def len_def remaining_def intro!: stream_reader.equality)
    show ?thesis
      by (subst read_nowait_loop.simps) (simp add: b c ih r d)
  next
    case False
    let ?d = "slice_from first (buffer_offset s)"
    let ?s' = "s\<lparr>buffer := rest, buffer_offset := 0, buffer_size := buffer_size s - len ?d\<rparr>"
    have c: "priv_read_nowait_chunk (-1) s = Inr (?d, ?s')"
      using b False by (simp add: priv_read_nowait_chunk_def Let_def)
    have k: "k = length (buffer ?s')" using Suc.hyps(2) b by simp
    have ih: "read_nowait_loop (-1) (chunks @ [?d]) ?s'
              = Some (Return (concat (chunks @ [?d]) @ remaining ?s'), drained ?s')"
      by (rule Suc.hyps(1) [OF k])
    have r: "remaining s = ?d @ remaining ?s'"
      using b by (cases rest) (simp_all add: remaining_def slice_from_def py_index_def)
    have d: "drained ?s' = drained s"
      using b r
      by (cases rest) (auto simp: drained_def len_def remaining_def intro!: stream_reader.equality)
    show ?thesis
      by (subst read_nowait_loop.simps) (simp add: b c ih r d)
  qed
qed

lemma priv_read_nowait_all:
  "priv_read_nowait (-1) s = (Return (remaining s), drained s)"
  by (simp add: priv_read_nowait_def read_nowait_loop_all)

subsection \<open>Suspending: \<open>_wait\<close>\<close>

text \<open>
  \<open>_wait\<close> up to its \<open>yield from waiter\<close>: it raises when a waiter is already there,
  otherwise it creates the future and stores it in \<open>self._waiter\<close>.
\<close>

definition wait_start :: "string \<Rightarrow> stream_reader \<Rightarrow> (exn + nat) \<times> stream_reader" where
  "wait_start func_name s =
     (if waiter s \<noteq> None then
        (Inl (RuntimeError (func_name @
           ''() called while another coroutine is already waiting for incoming data'')), s)
      else
        (let w = length (futures s)
         in (Inr w, s\<lparr>futures := futures s @ [Pending], waiter := Some w\<rparr>)))"

text \<open>
  \<open>_wait\<close> from its \<open>yield from waiter\<close> on, once the loop runs the coroutine again: a
  future still pending leaves it suspended; otherwise the \<open>finally\<close> clause clears
  \<open>self._waiter\<close>, and the future's exception (or its cancellation) is raised.
\<close>

datatype wake = Woken | WokenExc exn | StillWaiting

definition wait_resume :: "nat \<Rightarrow> stream_reader \<Rightarrow> wake \<times> stream_reader" where
  "wait_resume w s =
     (case fut (futures s) w of
        Pending \<Rightarrow> (StillWaiting, s)
      | Result _ \<Rightarrow> (Woken, s\<lparr>waiter := None\<rparr>)
      | Failed e \<Rightarrow> (WokenExc e, s\<lparr>waiter := None\<rparr>)
      | Cancelled \<Rightarrow> (WokenExc CancelledError, s\<lparr>waiter := None\<rparr>))"

subsection \<open>The reading coroutines, up to their first suspension\<close>

definition decorated :: "'a outcome \<times> stream_reader \<Rightarrow> 'a outcome \<times> stream_reader" where
  \<comment> \<open>a read method as the instance's class has it: \<open>FlowControlStreamReader\<close> wraps each
      in \<open>maybe_resume\<close>\<close>
  "decorated rs = (case flow (snd rs) of None \<Rightarrow> rs | Some _ \<Rightarrow> maybe_resume rs)"

definition sr_readany :: "stream_reader \<Rightarrow> bytes outcome \<times> stream_reader" where
  \<comment> \<open>\<open>StreamReader.readany\<close>\<close>
  "sr_readany s =
     (case exception s of
        Some e \<Rightarrow> (Raise e, s)
      | None \<Rightarrow>
          if buffer s = [] \<and> \<not> eof s then
            (case wait_start ''readany'' s of
               (Inl e, s1) \<Rightarrow> (Raise e, s1)
             | (Inr w, s1) \<Rightarrow> (Suspend w InReadany, s1))
          else priv_read_nowait (-1) s)"

definition readany :: "stream_reader \<Rightarrow> bytes outcome \<times> stream_reader" where
  "readany s = decorated (sr_readany s)"

lemma buffer_check_buffer_size [simp]: "buffer (check_buffer_size s) = buffer s"
  by (simp add: check_buffer_size_def split: option.splits)

lemma readany_Return_buffer:
  assumes "readany s = (Return block, s1)"
  shows "buffer s1 = [] \<and> (block \<noteq> [] \<longrightarrow> buffer s \<noteq> [])"
proof -
  have "\<exists>s0. sr_readany s = (Return block, s0) \<and> buffer s1 = buffer s0"
    using assms
    by (auto simp: readany_def decorated_def maybe_resume_def
             split: option.splits outcome.splits prod.splits)
  then obtain s0 where s0: "sr_readany s = (Return block, s0)" "buffer s1 = buffer s0"
    by blast
  from s0(1) have "block = remaining s \<and> s0 = drained s"
    by (auto simp: sr_readany_def wait_start_def priv_read_nowait_all Let_def
             split: option.splits if_splits)
  then show ?thesis
    using s0(2) by (auto simp: drained_def remaining_def)
qed

text \<open>The branch \<open>n < 0\<close> of \<open>read\<close>: \<open>self.readany()\<close> until it returns nothing.\<close>

function read_all_loop :: "bytes list \<Rightarrow> stream_reader \<Rightarrow> bytes outcome \<times> stream_reader" where
  "read_all_loop blocks s =
     (case readany s of
        (Return block, s1) \<Rightarrow>
          if block = [] then (Return (concat blocks), s1)
          else read_all_loop (blocks @ [block]) s1
      | (Raise e, s1) \<Rightarrow> (Raise e, s1)
      | (Suspend w k, s1) \<Rightarrow> (Suspend w (InReadAll blocks), s1)
      | (Diverge, s1) \<Rightarrow> (Diverge, s1))"
  by pat_completeness auto
termination
proof (relation "measure (\<lambda>(blocks, s). length (buffer s))")
  show "wf (measure (\<lambda>(blocks, s). length (buffer s)))" by simp
next
  fix blocks :: "bytes list" and s x1 s1 block
  assume "(x1, s1) = readany s" "x1 = Return block" "block \<noteq> []"
  then have "readany s = (Return block, s1)" by simp
  from readany_Return_buffer [OF this] \<open>block \<noteq> []\<close>
  show "((blocks @ [block], s1), (blocks, s)) \<in> measure (\<lambda>(blocks, s). length (buffer s))"
    by simp
qed

definition sr_read :: "int \<Rightarrow> stream_reader \<Rightarrow> bytes outcome \<times> stream_reader" where
  \<comment> \<open>\<open>StreamReader.read\<close>; the debugging block that counts reads at EOF only logs\<close>
  "sr_read n s =
     (case exception s of
        Some e \<Rightarrow> (Raise e, s)
      | None \<Rightarrow>
          if n = 0 then (Return [], s)
          else if n < 0 then read_all_loop [] s
          else if buffer s = [] \<and> \<not> eof s then
            (case wait_start ''read'' s of
               (Inl e, s1) \<Rightarrow> (Raise e, s1)
             | (Inr w, s1) \<Rightarrow> (Suspend w (InRead n), s1))
          else priv_read_nowait n s)"

definition read :: "int \<Rightarrow> stream_reader \<Rightarrow> bytes outcome \<times> stream_reader" where
  "read n s = decorated (sr_read n s)"

function readexactly_loop ::
  "bytes list \<Rightarrow> int \<Rightarrow> stream_reader \<Rightarrow> bytes outcome \<times> stream_reader" where
  "readexactly_loop blocks n s =
     (if n > 0 then
        (case read n s of
           (Return block, s1) \<Rightarrow>
             if block = [] then
               (Raise (IncompleteReadError (concat blocks) (len (concat blocks) + n)), s1)
             else readexactly_loop (blocks @ [block]) (n - len block) s1
         | (Raise e, s1) \<Rightarrow> (Raise e, s1)
         | (Suspend w k, s1) \<Rightarrow> (Suspend w (InReadexactly blocks n), s1)
         | (Diverge, s1) \<Rightarrow> (Diverge, s1))
      else (Return (concat blocks), s))"
  by pat_completeness auto
termination
  by (relation "measure (\<lambda>(blocks, n, s). nat n)") (auto simp: len_def)

definition sr_readexactly :: "int \<Rightarrow> stream_reader \<Rightarrow> bytes outcome \<times> stream_reader" where
  "sr_readexactly n s =
     (case exception s of
        Some e \<Rightarrow> (Raise e, s)
      | None \<Rightarrow> readexactly_loop [] n s)"

definition readexactly :: "int \<Rightarrow> stream_reader \<Rightarrow> bytes outcome \<times> stream_reader" where
  "readexactly n s = decorated (sr_readexactly n s)"

lemma chunk_buffer_length:
  assumes "priv_read_nowait_chunk n s = Inr (data, s1)"
  shows "length (buffer s1) \<le> length (buffer s)"
    and "n = -1 \<Longrightarrow> length (buffer s1) < length (buffer s)"
  using assms
  by (auto simp: priv_read_nowait_chunk_def Let_def split: list.splits if_splits)

text \<open>
  The loops of \<open>readline\<close>, entered at the test of the inner \<open>while\<close> with the local
  variables \<open>line\<close>, \<open>line_size\<close> and \<open>not_enough\<close>.
\<close>

function readline_loop ::
  "bytes list \<Rightarrow> int \<Rightarrow> bool \<Rightarrow> stream_reader \<Rightarrow> bytes outcome \<times> stream_reader" where
  "readline_loop line line_size not_enough s =
     (if buffer s \<noteq> [] \<and> not_enough then
        (let offset = buffer_offset s;
             ichar = find_byte (hd (buffer s)) newline offset + 1
         in case priv_read_nowait_chunk (if ichar \<noteq> 0 then ichar - offset else -1) s of
              Inl e \<Rightarrow> (Raise e, s)
            | Inr (data, s1) \<Rightarrow>
                let line1 = line @ [data];
                    line_size1 = line_size + len data;
                    not_enough1 = (if ichar \<noteq> 0 then False else not_enough)
                in if line_size1 > limit s1 then (Raise (ValueError ''Line is too long''), s1)
                   else readline_loop line1 line_size1 not_enough1 s1)
      else if eof s then (Return (concat line), s)
      else if not_enough then
        (case wait_start ''readline'' s of
           (Inl e, s1) \<Rightarrow> (Raise e, s1)
         | (Inr w, s1) \<Rightarrow> (Suspend w (InReadline line line_size), s1))
      else (Return (concat line), s))"
  by pat_completeness auto
termination
proof (relation "measure (\<lambda>(line, line_size, not_enough, s).
                            2 * length (buffer s) + (if not_enough then 1 else 0))")
  show "wf (measure (\<lambda>(line, line_size, not_enough, s).
                       2 * length (buffer s) + (if not_enough then 1 else 0)))"
    by simp
next
  fix line :: "bytes list" and line_size :: int and not_enough :: bool
    and s :: stream_reader and offset ichar x2 data s1 line1 line_size1 not_enough1
  assume a: "buffer s \<noteq> [] \<and> not_enough"
    and ichar: "ichar = find_byte (hd (buffer s)) newline offset + 1"
    and c: "priv_read_nowait_chunk (if ichar \<noteq> 0 then ichar - offset else - 1) s = Inr x2"
    and x2: "(data, s1) = x2"
    and ne: "not_enough1 = (if ichar \<noteq> 0 then False else not_enough)"
  from c x2 have c': "priv_read_nowait_chunk (if ichar \<noteq> 0 then ichar - offset else - 1) s
                       = Inr (data, s1)" by simp
  show "((line1, line_size1, not_enough1, s1), (line, line_size, not_enough, s))
        \<in> measure (\<lambda>(line, line_size, not_enough, s).
                      2 * length (buffer s) + (if not_enough then 1 else 0))"
  proof (cases "ichar = 0")
    case True
    with c' have "priv_read_nowait_chunk (-1) s = Inr (data, s1)" by simp
    from chunk_buffer_length(2) [OF this] show ?thesis using a ne True by simp
  next
    case False
    from chunk_buffer_length(1) [OF c'] show ?thesis using a ne False by simp
  qed
qed

definition sr_readline :: "stream_reader \<Rightarrow> bytes outcome \<times> stream_reader" where
  "sr_readline s =
     (case exception s of
        Some e \<Rightarrow> (Raise e, s)
      | None \<Rightarrow> readline_loop [] 0 True s)"

definition readline :: "stream_reader \<Rightarrow> bytes outcome \<times> stream_reader" where
  "readline s = decorated (sr_readline s)"

definition sr_read_nowait :: "int \<Rightarrow> stream_reader \<Rightarrow> bytes outcome \<times> stream_reader" where
  \<comment> \<open>\<open>StreamReader.read_nowait\<close>: not a coroutine\<close>
  "sr_read_nowait n s =
     (case exception s of
        Some e \<Rightarrow> (Raise e, s)
      | None \<Rightarrow>
          if (case waiter s of None \<Rightarrow> False | Some w \<Rightarrow> fut (futures s) w = Pending) then
            (Raise (RuntimeError ''Called while some coroutine is waiting for incoming data.''), s)
          else priv_read_nowait n s)"

definition read_nowait :: "int \<Rightarrow> stream_reader \<Rightarrow> bytes outcome \<times> stream_reader" where
  "read_nowait n s = decorated (sr_read_nowait n s)"

subsection \<open>Resuming a suspended coroutine\<close>

definition read_all_cont ::
  "bytes list \<Rightarrow> bytes outcome \<times> stream_reader \<Rightarrow> bytes outcome \<times> stream_reader" where
  \<comment> \<open>the loop of \<open>read(-1)\<close> from the point where \<open>self.readany()\<close> has finished\<close>
  "read_all_cont blocks rs =
     (case rs of
        (Return block, s1) \<Rightarrow>
          if block = [] then (Return (concat blocks), s1)
          else read_all_loop (blocks @ [block]) s1
      | (Raise e, s1) \<Rightarrow> (Raise e, s1)
      | (Suspend w k, s1) \<Rightarrow> (Suspend w (InReadAll blocks), s1)
      | (Diverge, s1) \<Rightarrow> (Diverge, s1))"

definition readexactly_cont ::
  "bytes list \<Rightarrow> int \<Rightarrow> bytes outcome \<times> stream_reader \<Rightarrow> bytes outcome \<times> stream_reader" where
  \<comment> \<open>the loop of \<open>readexactly\<close> from the point where \<open>self.read(n)\<close> has finished\<close>
  "readexactly_cont blocks n rs =
     (case rs of
        (Return block, s1) \<Rightarrow>
          if block = [] then
            (Raise (IncompleteReadError (concat blocks) (len (concat blocks) + n)), s1)
          else readexactly_loop (blocks @ [block]) (n - len block) s1
      | (Raise e, s1) \<Rightarrow> (Raise e, s1)
      | (Suspend w k, s1) \<Rightarrow> (Suspend w (InReadexactly blocks n), s1)
      | (Diverge, s1) \<Rightarrow> (Diverge, s1))"

text \<open>
  The event loop runs a coroutine suspended at \<open>Suspend w k\<close> again: \<open>_wait\<close> finishes,
  then each method on the stack continues from where it awaited.
\<close>

definition resume :: "frame \<Rightarrow> nat \<Rightarrow> stream_reader \<Rightarrow> bytes outcome \<times> stream_reader" where
  "resume k w s =
     (case wait_resume w s of
        (StillWaiting, s1) \<Rightarrow> (Suspend w k, s1)
      | (WokenExc e, s1) \<Rightarrow> (Raise e, s1)
      | (Woken, s1) \<Rightarrow>
          (case k of
             InRead n \<Rightarrow> decorated (priv_read_nowait n s1)
           | InReadany \<Rightarrow> decorated (priv_read_nowait (-1) s1)
           | InReadAll blocks \<Rightarrow>
               decorated (read_all_cont blocks (decorated (priv_read_nowait (-1) s1)))
           | InReadline line line_size \<Rightarrow> decorated (readline_loop line line_size True s1)
           | InReadexactly blocks n \<Rightarrow>
               decorated (readexactly_cont blocks n (decorated (priv_read_nowait n s1)))))"

definition same_rest :: "stream_reader \<Rightarrow> stream_reader \<Rightarrow> bool" where
  \<comment> \<open>the two states differ at most in the buffer, its offset and its size\<close>
  "same_rest s s' =
     (limit s' = limit s \<and> eof s' = eof s \<and> waiter s' = waiter s
      \<and> eof_waiter s' = eof_waiter s \<and> exception s' = exception s
      \<and> total_bytes s' = total_bytes s \<and> futures s' = futures s)"

lemma same_rest_refl [simp]: "same_rest s s"
  by (simp add: same_rest_def)

lemma same_rest_trans: "same_rest s s1 \<Longrightarrow> same_rest s1 s2 \<Longrightarrow> same_rest s s2"
  by (simp add: same_rest_def)

lemma chunk_partial:
  assumes "well_formed s" "buffer s = first # rest" "0 < n"
    and "n < len first - buffer_offset s"
  shows "priv_read_nowait_chunk n s =
           Inr (take (nat n) (drop (nat (buffer_offset s)) first),
                s\<lparr>buffer_offset := buffer_offset s + n, buffer_size := buffer_size s - n\<rparr>)"
  using assms
  by (auto simp: priv_read_nowait_chunk_def Let_def well_formed_def slice_nonneg len_def)

lemma chunk_whole:
  assumes "well_formed s" "buffer s = first # rest"
    and "n = -1 \<or> len first - buffer_offset s \<le> n"
  shows "priv_read_nowait_chunk n s =
           Inr (drop (nat (buffer_offset s)) first,
                s\<lparr>buffer := rest, buffer_offset := 0,
                  buffer_size := buffer_size s - (len first - buffer_offset s)\<rparr>)"
  using assms
  by (auto simp: priv_read_nowait_chunk_def Let_def well_formed_def slice_from_nonneg len_def
           intro!: stream_reader.equality)


lemma remaining_Cons:
  "well_formed s \<Longrightarrow> buffer s = first # rest
   \<Longrightarrow> remaining s = drop (nat (buffer_offset s)) first @ concat rest"
  by (simp add: remaining_def well_formed_def slice_from_nonneg)

lemma well_formed_partial:
  assumes "well_formed s" "buffer s = first # rest" "0 < n"
    and "n < len first - buffer_offset s"
  shows "well_formed (s\<lparr>buffer_offset := buffer_offset s + n, buffer_size := buffer_size s - n\<rparr>)"
  using assms
  by (auto simp: well_formed_def remaining_def slice_from_nonneg len_def)

lemma well_formed_whole:
  assumes "well_formed s" "buffer s = first # rest"
  shows "well_formed (s\<lparr>buffer := rest, buffer_offset := 0,
                        buffer_size := buffer_size s - (len first - buffer_offset s)\<rparr>)"
  using assms
  by (cases rest) (auto simp: well_formed_def remaining_def slice_from_nonneg len_def)

lemma chunk_step:
  assumes wf: "well_formed s" and ne: "buffer s \<noteq> []" and n: "0 < n"
  shows "\<exists>data s'. priv_read_nowait_chunk n s = Inr (data, s')
           \<and> data \<noteq> [] \<and> length data \<le> nat n
           \<and> data = take (length data) (remaining s)
           \<and> remaining s' = drop (length data) (remaining s)
           \<and> well_formed s' \<and> same_rest s s' \<and> flow s' = flow s
           \<and> (length data < nat n \<longrightarrow> length (buffer s') < length (buffer s))"
proof -
  from ne obtain first rest where b: "buffer s = first # rest"
    by (cases "buffer s") auto
  have o: "0 \<le> buffer_offset s" "buffer_offset s < len first"
    using wf b by (auto simp: well_formed_def)
  have r: "remaining s = drop (nat (buffer_offset s)) first @ concat rest"
    by (rule remaining_Cons [OF wf b])
  show ?thesis
  proof (cases "n < len first - buffer_offset s")
    case True
    let ?s' = "s\<lparr>buffer_offset := buffer_offset s + n, buffer_size := buffer_size s - n\<rparr>"
    let ?d = "take (nat n) (drop (nat (buffer_offset s)) first)"
    have c: "priv_read_nowait_chunk n s = Inr (?d, ?s')"
      by (rule chunk_partial [OF wf b n True])
    have w: "well_formed ?s'" by (rule well_formed_partial [OF wf b n True])
    have l: "length ?d = nat n" using True o n by (auto simp: len_def)
    have r': "remaining ?s' = drop (nat (buffer_offset s + n)) first @ concat rest"
      using remaining_Cons [OF w] b by simp
    have "?d \<noteq> []" using l n by auto
    moreover have "?d = take (length ?d) (remaining s)"
      using True o n by (simp add: r l len_def)
    moreover have "remaining ?s' = drop (length ?d) (remaining s)"
    proof -
      have "nat (buffer_offset s + n) = nat n + nat (buffer_offset s)"
        using o n by simp
      then show ?thesis using True o n by (simp add: r r' l len_def)
    qed
    moreover have "same_rest s ?s'" by (simp add: same_rest_def)
    ultimately show ?thesis using c w l by auto
  next
    case False
    let ?s' = "s\<lparr>buffer := rest, buffer_offset := 0,
                 buffer_size := buffer_size s - (len first - buffer_offset s)\<rparr>"
    let ?d = "drop (nat (buffer_offset s)) first"
    have c: "priv_read_nowait_chunk n s = Inr (?d, ?s')"
      using False by (intro chunk_whole [OF wf b]) simp
    have w: "well_formed ?s'" by (rule well_formed_whole [OF wf b])
    have l: "int (length ?d) = len first - buffer_offset s" using o by (auto simp: len_def)
    have r': "remaining ?s' = concat rest"
      by (cases rest) (simp_all add: remaining_def)
    have "?d \<noteq> []" using o by (auto simp: len_def)
    moreover have "length ?d \<le> nat n" using False l by linarith
    moreover have "?d = take (length ?d) (remaining s)" by (simp add: r)
    moreover have "remaining ?s' = drop (length ?d) (remaining s)" by (simp add: r r')
    moreover have "same_rest s ?s'" by (simp add: same_rest_def)
    moreover have "length (buffer ?s') < length (buffer s)" using b by simp
    moreover have "flow ?s' = flow s" by simp
    ultimately show ?thesis using c w by blast
  qed
qed

lemma read_nowait_loop_take:
  assumes "well_formed s" "0 < n"
  shows "\<exists>s'. read_nowait_loop n chunks s
                = Some (Return (concat chunks @ take (nat n) (remaining s)), s')
           \<and> well_formed s' \<and> remaining s' = drop (nat n) (remaining s) \<and> same_rest s s'
           \<and> flow s' = flow s"
  using assms
proof (induction "length (buffer s)" arbitrary: n chunks s rule: less_induct)
  case less
  show ?case
  proof (cases "buffer s = []")
    case True
    then have "remaining s = []" by (simp add: remaining_def)
    with True less.prems show ?thesis
      by (subst read_nowait_loop.simps) simp
  next
    case False
    from chunk_step [OF less.prems(1) False less.prems(2)]
    obtain data s1 where c: "priv_read_nowait_chunk n s = Inr (data, s1)"
      and d: "data \<noteq> []" "length data \<le> nat n" "data = take (length data) (remaining s)"
      and r1: "remaining s1 = drop (length data) (remaining s)"
      and w1: "well_formed s1" and sr: "same_rest s s1" and f1: "flow s1 = flow s"
      and sh: "length data < nat n \<longrightarrow> length (buffer s1) < length (buffer s)"
      by blast
    show ?thesis
    proof (cases "n - len data = 0")
      case True
      then have e: "nat n = length data" by (simp add: len_def)
      have "read_nowait_loop n chunks s = Some (Return (concat (chunks @ [data])), s1)"
        using False c True less.prems(2) by (subst read_nowait_loop.simps) simp
      moreover have "concat (chunks @ [data]) = concat chunks @ take (nat n) (remaining s)"
        using d(3) e by simp
      ultimately show ?thesis using w1 r1 sr e f1 by auto
    next
      case False
      then have lt: "length data < nat n" and n': "0 < n - len data"
        using d(2) less.prems(2) by (auto simp: len_def)
      with sh have "length (buffer s1) < length (buffer s)" by simp
      from less.hyps [OF this w1 n', of "chunks @ [data]"]
      obtain s' where l: "read_nowait_loop (n - len data) (chunks @ [data]) s1
            = Some (Return (concat (chunks @ [data]) @ take (nat (n - len data)) (remaining s1)), s')"
        and w': "well_formed s'" and r': "remaining s' = drop (nat (n - len data)) (remaining s1)"
        and sr': "same_rest s1 s'" and f': "flow s' = flow s1" by blast
      have k: "nat (n - len data) = nat n - length data" by (simp add: len_def)
      have t: "take (nat n) (remaining s) = data @ take (nat n - length data) (remaining s1)"
      proof -
        have "take (nat n) (remaining s)
              = take (length data + (nat n - length data)) (remaining s)"
          using lt by simp
        also have "\<dots> = take (length data) (remaining s)
                        @ take (nat n - length data) (drop (length data) (remaining s))"
          by (rule take_add)
        finally show ?thesis using d(3) r1 by simp
      qed
      have "read_nowait_loop n chunks s
            = read_nowait_loop (n - len data) (chunks @ [data]) s1"
        using \<open>buffer s \<noteq> []\<close> c False less.prems(2) by (subst read_nowait_loop.simps) simp
      moreover have "remaining s' = drop (nat n) (remaining s)"
        using r' r1 k lt by (simp add: add.commute)
      ultimately show ?thesis
        using l w' t k same_rest_trans [OF sr sr'] f1 f' by auto
    qed
  qed
qed

lemma check_buffer_size_fields [simp]:
  "buffer_offset (check_buffer_size s) = buffer_offset s"
  "buffer_size (check_buffer_size s) = buffer_size s"
  "limit (check_buffer_size s) = limit s"
  "eof (check_buffer_size s) = eof s"
  "waiter (check_buffer_size s) = waiter s"
  "eof_waiter (check_buffer_size s) = eof_waiter s"
  "exception (check_buffer_size s) = exception s"
  "total_bytes (check_buffer_size s) = total_bytes s"
  "futures (check_buffer_size s) = futures s"
  by (simp_all add: check_buffer_size_def split: option.splits)

lemma check_buffer_size_same:
  "remaining (check_buffer_size s) = remaining s"
  "well_formed (check_buffer_size s) = well_formed s"
  "same_rest s (check_buffer_size s)"
  by (simp_all add: remaining_def well_formed_def same_rest_def cong: list.case_cong)

lemma decorated_Return:
  "\<exists>s'. decorated (Return x, s) = (Return x, s') \<and> (s' = s \<or> s' = check_buffer_size s)"
  by (simp add: decorated_def maybe_resume_def split: option.splits)

lemma decorated_other:
  "(\<And>x. r \<noteq> Return x) \<Longrightarrow> decorated (r, s) = (r, s)"
  by (cases r) (auto simp: decorated_def maybe_resume_def split: option.splits)

lemma decorated_keeps:
  assumes "decorated (Return x, s) = (r, s')"
  shows "r = Return x \<and> well_formed s' = well_formed s \<and> remaining s' = remaining s
         \<and> same_rest s s' \<and> buffer s' = buffer s \<and> buffer_size s' = buffer_size s
         \<and> buffer_offset s' = buffer_offset s"
  using assms decorated_Return [of x s] check_buffer_size_same [of s] by auto

lemma priv_read_nowait_take:
  assumes "well_formed s" "0 < n"
  shows "\<exists>s'. priv_read_nowait n s = (Return (take (nat n) (remaining s)), s')
           \<and> well_formed s' \<and> remaining s' = drop (nat n) (remaining s) \<and> same_rest s s'
           \<and> flow s' = flow s"
  using read_nowait_loop_take [OF assms, of "[]"] by (auto simp: priv_read_nowait_def)

lemma well_formed_drained: "well_formed s \<Longrightarrow> well_formed (drained s)"
  by (auto simp: well_formed_def drained_def remaining_def len_def)

lemma drained_same: "same_rest s (drained s)" "flow (drained s) = flow s"
  "remaining (drained s) = []" "buffer (drained s) = []"
  by (simp_all add: same_rest_def drained_def remaining_def)

text \<open>A read that finds data or EOF returns at once, with a prefix of the buffered bytes.\<close>

lemma sr_read_ready:
  assumes "well_formed s" "exception s = None" "0 < n" "buffer s \<noteq> [] \<or> eof s"
  shows "\<exists>s'. sr_read n s = (Return (take (nat n) (remaining s)), s')
           \<and> well_formed s' \<and> remaining s' = drop (nat n) (remaining s) \<and> same_rest s s'
           \<and> flow s' = flow s"
  using assms priv_read_nowait_take [OF assms(1,3)] by (auto simp: sr_read_def)

lemma read_ready:
  assumes "well_formed s" "exception s = None" "0 < n" "buffer s \<noteq> [] \<or> eof s"
  shows "\<exists>s'. read n s = (Return (take (nat n) (remaining s)), s')
           \<and> well_formed s' \<and> remaining s' = drop (nat n) (remaining s) \<and> same_rest s s'"
proof -
  from sr_read_ready [OF assms] obtain s1 where
    1: "sr_read n s = (Return (take (nat n) (remaining s)), s1)" "well_formed s1"
       "remaining s1 = drop (nat n) (remaining s)" "same_rest s s1" by blast
  obtain r s' where d: "decorated (Return (take (nat n) (remaining s)), s1) = (r, s')"
    by (cases "decorated (Return (take (nat n) (remaining s)), s1)") auto
  from decorated_keeps [OF d] 1 same_rest_trans [of s s1 s'] d
  show ?thesis by (auto simp: read_def)
qed

lemma sr_readany_ready:
  assumes "exception s = None" "buffer s \<noteq> [] \<or> eof s"
  shows "sr_readany s = (Return (remaining s), drained s)"
  using assms by (auto simp: sr_readany_def priv_read_nowait_all)

lemma readany_ready:
  assumes "exception s = None" "buffer s \<noteq> [] \<or> eof s"
  shows "\<exists>s'. readany s = (Return (remaining s), s') \<and> buffer s' = [] \<and> remaining s' = []
           \<and> same_rest s s' \<and> (well_formed s \<longrightarrow> well_formed s')"
proof -
  obtain r s' where d: "decorated (Return (remaining s), drained s) = (r, s')"
    by (cases "decorated (Return (remaining s), drained s)") auto
  from decorated_keeps [OF d] d drained_same [of s] well_formed_drained [of s]
    same_rest_trans [of s "drained s" s']
  show ?thesis by (auto simp: readany_def sr_readany_ready [OF assms])
qed

lemma unread_data_prepend:
  assumes wf: "well_formed s" and d: "d \<noteq> []"
  shows "\<exists>s1. unread_data d s = (None, s1) \<and> hd (buffer s1) = d \<and> buffer_offset s1 = 0
           \<and> buffer_size s1 = buffer_size s + len d
           \<and> remaining s1 = d @ remaining s \<and> well_formed s1 \<and> same_rest s s1
           \<and> flow s1 = flow s"
proof (cases "buffer s")
  case Nil
  with wf d show ?thesis
    by (auto simp: unread_data_def well_formed_def remaining_def same_rest_def len_def)
next
  case (Cons first rest)
  with wf d show ?thesis
    by (auto simp: unread_data_def well_formed_def remaining_def same_rest_def len_def
          slice_from_nonneg)
qed

text \<open>
  C10. On a reader whose buffer is in order and that holds no exception:
  \<open>unread_data\<close> of nothing changes nothing; \<open>unread_data(d)\<close> of a non-empty \<open>d\<close>
  puts \<open>d\<close> at the head of the buffer and adds \<open>len(d)\<close> to the buffered size, so the
  next \<open>read(m)\<close> returns the first \<open>m\<close> bytes of \<open>d\<close> followed by the old data, and
  \<open>read(len(d))\<close> returns \<open>d\<close> and leaves the data that was there before; when the
  reader is as a \<open>read(n)\<close> that returned \<open>d\<close> left it, \<open>unread_data(d)\<close> restores the
  data that read found.
\<close>

theorem unread_data_undoes_read:
  assumes "well_formed s" "exception s = None" "d \<noteq> []" "0 < m"
  shows "unread_data [] s = (None, s)
       \<and> (\<exists>s1. unread_data d s = (None, s1)
              \<and> hd (buffer s1) = d \<and> buffer_offset s1 = 0
              \<and> buffer_size s1 = buffer_size s + len d
              \<and> remaining s1 = d @ remaining s
              \<and> (\<exists>s2. read m s1 = (Return (take (nat m) (d @ remaining s)), s2))
              \<and> (\<exists>s3. read (len d) s1 = (Return d, s3) \<and> remaining s3 = remaining s)
              \<and> (\<forall>s0 n. well_formed s0 \<and> 0 < n \<and> read n s0 = (Return d, s)
                         \<longrightarrow> remaining s1 = remaining s0))"
proof -
  from unread_data_prepend [OF assms(1,3)] obtain s1 where
    u: "unread_data d s = (None, s1)" "hd (buffer s1) = d" "buffer_offset s1 = 0"
       "buffer_size s1 = buffer_size s + len d" "remaining s1 = d @ remaining s"
       "well_formed s1" "same_rest s s1" by blast
  have e: "exception s1 = None" using u(7) assms(2) by (simp add: same_rest_def)
  have b: "buffer s1 \<noteq> []" using u(5) assms(3) by (auto simp: remaining_def)
  from read_ready [OF u(6) e assms(4)] b u(5)
  have r2: "\<exists>s2. read m s1 = (Return (take (nat m) (d @ remaining s)), s2)" by auto
  have "0 < len d" using assms(3) by (simp add: len_def)
  from read_ready [OF u(6) e this] b u(5)
  have r3: "\<exists>s3. read (len d) s1 = (Return d, s3) \<and> remaining s3 = remaining s"
    by (auto simp: len_def)
  have r4: "remaining s1 = remaining s0"
    if "well_formed s0" "0 < n" "read n s0 = (Return d, s)" for s0 n
  proof -
    have ex: "exception s0 = None" using that(3)
      by (auto simp: read_def sr_read_def decorated_def maybe_resume_def
               split: option.splits)
    have rdy: "buffer s0 \<noteq> [] \<or> eof s0"
    proof (rule ccontr)
      assume "\<not> ?thesis"
      then have "\<exists>r s'. sr_read n s0 = (r, s') \<and> (\<forall>x. r \<noteq> Return x)"
        using ex that(2) by (auto simp: sr_read_def wait_start_def Let_def)
      then show False using that(3)
        by (auto simp: read_def decorated_def maybe_resume_def
                 split: option.splits outcome.splits)
    qed
    from read_ready [OF that(1) ex that(2) rdy] that(3)
    have "d = take (nat n) (remaining s0)" "remaining s = drop (nat n) (remaining s0)"
      by auto
    then show ?thesis using u(5) by simp
  qed
  have "unread_data [] s = (None, s)" by (simp add: unread_data_def)
  with u r2 r3 r4 show ?thesis by blast
qed

definition reader_of :: "bytes list \<Rightarrow> int \<Rightarrow> bool \<Rightarrow> stream_reader" where
  "reader_of chunks offset at_end =
     (StreamReader_init 10)\<lparr>buffer := chunks, buffer_offset := offset,
        buffer_size := len (concat chunks) - offset, eof := at_end,
        total_bytes := len (concat chunks)\<rparr>"

lemma ex_reader_wf3: "well_formed (reader_of [''hello''] 3 False)" by code_simp
lemma ex_reader_wf0: "well_formed (reader_of [''hello''] 0 False)" by code_simp
lemma ex_reader_exc: "exception (reader_of [''hello''] 3 False) = None" by code_simp
lemma ex_reader_read: "read 3 (reader_of [''hello''] 0 False) = (Return ''hel'', reader_of [''hello''] 3 False)"
  by code_simp

theorem unread_data_undoes_read_witness:
  "well_formed (reader_of [''hello''] 3 False)
   \<and> exception (reader_of [''hello''] 3 False) = None
   \<and> read 3 (reader_of [''hello''] 0 False) = (Return ''hel'', reader_of [''hello''] 3 False)
   \<and> unread_data [] (reader_of [''hello''] 3 False) = (None, reader_of [''hello''] 3 False)
   \<and> (\<exists>s1. unread_data ''hel'' (reader_of [''hello''] 3 False) = (None, s1)
          \<and> remaining s1 = remaining (reader_of [''hello''] 0 False)
          \<and> (\<exists>s3. read 3 s1 = (Return ''hel'', s3)
                 \<and> remaining s3 = remaining (reader_of [''hello''] 3 False)))"
proof -
  have d: "''hel'' \<noteq> []" by simp
  have l: "len ''hel'' = 3" by (simp add: len_def)
  have m: "(0::int) < 3" by simp
  from unread_data_undoes_read [OF ex_reader_wf3 ex_reader_exc d m]
  obtain s1 where u: "unread_data [] (reader_of [''hello''] 3 False)
                        = (None, reader_of [''hello''] 3 False)"
    "unread_data ''hel'' (reader_of [''hello''] 3 False) = (None, s1)"
    "\<exists>s3. read (len ''hel'') s1 = (Return ''hel'', s3)
          \<and> remaining s3 = remaining (reader_of [''hello''] 3 False)"
    "\<forall>s0 n. well_formed s0 \<and> 0 < n
        \<and> read n s0 = (Return ''hel'', reader_of [''hello''] 3 False)
        \<longrightarrow> remaining s1 = remaining s0"
    by blast
  from u(4) ex_reader_wf0 m ex_reader_read
  have "remaining s1 = remaining (reader_of [''hello''] 0 False)" by blast
  with u(1,2,3) l ex_reader_wf3 ex_reader_exc ex_reader_read show ?thesis by auto
qed

lemma wake_waiter_ok:
  assumes "waiters_ok s"
  shows "\<exists>s'. wake_waiter v s = (None, s') \<and> buffer s' = buffer s
           \<and> buffer_offset s' = buffer_offset s \<and> buffer_size s' = buffer_size s
           \<and> eof s' = eof s \<and> exception s' = exception s \<and> flow s' = flow s
           \<and> limit s' = limit s \<and> total_bytes s' = total_bytes s
           \<and> waiter s' = None \<and> eof_waiter s' = eof_waiter s \<and> waiters_ok s'"
proof (cases "waiter s")
  case None
  with assms show ?thesis by (simp add: wake_waiter_def)
next
  case (Some w)
  with assms have w: "w < length (futures s)" "futures s ! w = Pending \<or> futures s ! w = Cancelled"
    "eof_waiter s \<noteq> Some w"
    by (auto simp: waiters_ok_def live_def)
  show ?thesis
  proof (cases "futures s ! w = Cancelled")
    case True
    with Some w assms show ?thesis
      by (auto simp: wake_waiter_def fut_def waiters_ok_def live_def Let_def split: option.splits)
  next
    case False
    with w have "futures s ! w = Pending" by simp
    with Some w assms show ?thesis
      by (auto simp: wake_waiter_def fut_def complete_def waiters_ok_def live_def Let_def
               nth_list_update split: option.splits)
  qed
qed

lemma wake_eof_waiter_ok:
  assumes "waiters_ok s"
  shows "\<exists>s'. wake_eof_waiter v s = (None, s') \<and> buffer s' = buffer s
           \<and> buffer_offset s' = buffer_offset s \<and> buffer_size s' = buffer_size s
           \<and> eof s' = eof s \<and> exception s' = exception s \<and> flow s' = flow s
           \<and> limit s' = limit s \<and> total_bytes s' = total_bytes s
           \<and> waiter s' = waiter s \<and> eof_waiter s' = None \<and> waiters_ok s'"
proof (cases "eof_waiter s")
  case None
  with assms show ?thesis by (simp add: wake_eof_waiter_def)
next
  case (Some w)
  with assms have w: "w < length (futures s)" "futures s ! w = Pending \<or> futures s ! w = Cancelled"
    "waiter s \<noteq> Some w"
    by (auto simp: waiters_ok_def live_def)
  show ?thesis
  proof (cases "futures s ! w = Cancelled")
    case True
    with Some w assms show ?thesis
      by (auto simp: wake_eof_waiter_def fut_def waiters_ok_def live_def Let_def split: option.splits)
  next
    case False
    with w have "futures s ! w = Pending" by simp
    with Some w assms show ?thesis
      by (auto simp: wake_eof_waiter_def fut_def complete_def waiters_ok_def live_def Let_def
               nth_list_update split: option.splits)
  qed
qed

lemma buffer_cong:
  assumes "buffer s' = buffer s" "buffer_offset s' = buffer_offset s"
    "buffer_size s' = buffer_size s"
  shows "remaining s' = remaining s" "well_formed s' = well_formed s"
  using assms by (simp_all add: remaining_def well_formed_def cong: list.case_cong)

lemma append_chunk:
  assumes "well_formed s" "c \<noteq> []"
  defines "s1 \<equiv> s\<lparr>buffer := buffer s @ [c], buffer_size := buffer_size s + len c,
                    total_bytes := total_bytes s + len c\<rparr>"
  shows "well_formed s1" "remaining s1 = remaining s @ c"
  using assms
  by (cases "buffer s"; auto simp: well_formed_def remaining_def len_def)+

lemma sr_feed_data_ok:
  assumes "well_formed s" "waiters_ok s" "\<not> eof s"
  shows "\<exists>s'. sr_feed_data c s = (None, s') \<and> well_formed s' \<and> waiters_ok s' \<and> \<not> eof s'
           \<and> exception s' = exception s \<and> remaining s' = remaining s @ c
           \<and> limit s' = limit s \<and> flow s' = flow s
           \<and> buffer_size s' = buffer_size s + len c"
proof (cases "c = []")
  case True
  with assms show ?thesis by (simp add: sr_feed_data_def len_def)
next
  case False
  let ?s1 = "s\<lparr>buffer := buffer s @ [c], buffer_size := buffer_size s + len c,
                total_bytes := total_bytes s + len c\<rparr>"
  have w1: "well_formed ?s1" and r1: "remaining ?s1 = remaining s @ c"
    using append_chunk [OF assms(1) False] by simp_all
  have "waiters_ok ?s1" using assms(2) by (simp add: waiters_ok_def)
  from wake_waiter_ok [OF this, of "Result False"] obtain s' where
    s': "wake_waiter (Result False) ?s1 = (None, s')" "buffer s' = buffer ?s1"
      "buffer_offset s' = buffer_offset ?s1" "buffer_size s' = buffer_size ?s1"
      "eof s' = eof ?s1" "exception s' = exception ?s1" "flow s' = flow ?s1"
      "limit s' = limit ?s1" "waiters_ok s'" by blast
  from buffer_cong [OF s'(2,3,4)] w1 r1 s' False assms(3) show ?thesis
    by (simp add: sr_feed_data_def)
qed

lemma feed_data_ok:
  assumes "well_formed s" "waiters_ok s" "\<not> eof s"
  shows "\<exists>s'. feed_data c s = (None, s') \<and> well_formed s' \<and> waiters_ok s' \<and> \<not> eof s'
           \<and> exception s' = exception s \<and> remaining s' = remaining s @ c
           \<and> limit s' = limit s \<and> buffer_size s' = buffer_size s + len c"
proof -
  from sr_feed_data_ok [OF assms, of c] obtain s1 where
    s1: "sr_feed_data c s = (None, s1)" "well_formed s1" "waiters_ok s1" "\<not> eof s1"
      "exception s1 = exception s" "remaining s1 = remaining s @ c" "limit s1 = limit s"
      "flow s1 = flow s" "buffer_size s1 = buffer_size s + len c" by blast
  show ?thesis
  proof (cases "flow s")
    case None
    with s1 show ?thesis by (simp add: feed_data_def)
  next
    case (Some fc)
    have k: "well_formed (s1\<lparr>flow := f\<rparr>)" "remaining (s1\<lparr>flow := f\<rparr>) = remaining s1"
      "waiters_ok (s1\<lparr>flow := f\<rparr>)" for f
      using s1(2,3) buffer_cong [of "s1\<lparr>flow := f\<rparr>" s1] by (simp_all add: waiters_ok_def)
    from Some s1 k show ?thesis
      by (auto simp: feed_data_def fc_feed_data_def Let_def)
  qed
qed

lemma feed_eof_ok:
  assumes "well_formed s" "waiters_ok s"
  shows "\<exists>s'. feed_eof s = (None, s') \<and> well_formed s' \<and> waiters_ok s' \<and> eof s'
           \<and> exception s' = exception s \<and> remaining s' = remaining s
           \<and> limit s' = limit s \<and> waiter s' = None \<and> flow s' = flow s"
proof -
  have "waiters_ok (s\<lparr>eof := True\<rparr>)" using assms(2) by (simp add: waiters_ok_def)
  from wake_waiter_ok [OF this, of "Result True"] obtain s1 where
    s1: "wake_waiter (Result True) (s\<lparr>eof := True\<rparr>) = (None, s1)" "buffer s1 = buffer s"
      "buffer_offset s1 = buffer_offset s" "buffer_size s1 = buffer_size s"
      "eof s1" "exception s1 = exception s" "flow s1 = flow s"
      "limit s1 = limit s" "waiter s1 = None" "waiters_ok s1" by auto
  from wake_eof_waiter_ok [OF s1(10), of "Result True"] obtain s' where
    s': "wake_eof_waiter (Result True) s1 = (None, s')" "buffer s' = buffer s1"
      "buffer_offset s' = buffer_offset s1" "buffer_size s' = buffer_size s1"
      "eof s' = eof s1" "exception s' = exception s1" "flow s' = flow s1"
      "limit s' = limit s1" "waiter s' = waiter s1" "waiters_ok s'" by blast
  have b: "buffer s' = buffer s" "buffer_offset s' = buffer_offset s"
    "buffer_size s' = buffer_size s" using s1 s' by simp_all
  from buffer_cong [OF b] assms(1) s1 s' show ?thesis
    by (simp add: feed_eof_def)
qed

subsection \<open>Feeding a sequence of chunks, reading repeatedly\<close>

fun feed_all :: "bytes list \<Rightarrow> stream_reader \<Rightarrow> exn option \<times> stream_reader" where
  \<comment> \<open>\<open>feed_data(c1); ...; feed_data(cn)\<close>, stopping at the first call that raises\<close>
  "feed_all [] s = (None, s)"
| "feed_all (c # cs) s =
     (case feed_data c s of
        (Some e, s1) \<Rightarrow> (Some e, s1)
      | (None, s1) \<Rightarrow> feed_all cs s1)"

fun readany_times :: "nat \<Rightarrow> stream_reader \<Rightarrow> bytes outcome list \<times> stream_reader" where
  \<comment> \<open>the outcomes of \<open>k\<close> successive calls of \<open>readany()\<close>\<close>
  "readany_times 0 s = ([], s)"
| "readany_times (Suc k) s =
     (case readany s of
        (r, s1) \<Rightarrow> (case readany_times k s1 of (rs, s2) \<Rightarrow> (r # rs, s2)))"

lemma feed_all_ok:
  assumes "well_formed s" "waiters_ok s" "\<not> eof s"
  shows "\<exists>s'. feed_all cs s = (None, s') \<and> well_formed s' \<and> waiters_ok s' \<and> \<not> eof s'
           \<and> exception s' = exception s \<and> remaining s' = remaining s @ concat cs
           \<and> limit s' = limit s"
  using assms
proof (induction cs arbitrary: s)
  case Nil
  then show ?case by simp
next
  case (Cons c cs)
  from feed_data_ok [OF Cons.prems, of c] obtain s1 where
    s1: "feed_data c s = (None, s1)" "well_formed s1" "waiters_ok s1" "\<not> eof s1"
      "exception s1 = exception s" "remaining s1 = remaining s @ c" "limit s1 = limit s"
    by blast
  from Cons.IH [OF s1(2,3,4)] s1 show ?case by auto
qed

lemma readany_times_at_eof:
  assumes "exception s = None" "eof s" "remaining s = []"
  shows "\<exists>s'. readany_times k s = (replicate k (Return []), s')"
  using assms
proof (induction k arbitrary: s)
  case 0
  then show ?case by simp
next
  case (Suc k)
  from readany_ready [of s] Suc.prems obtain s1 where
    s1: "readany s = (Return [], s1)" "remaining s1 = []" "same_rest s s1" by auto
  then have "exception s1 = None" "eof s1" using Suc.prems by (simp_all add: same_rest_def)
  from Suc.IH [OF this s1(2)] s1(1) show ?case by auto
qed

text \<open>
  On a reader that is open (no EOF, no exception) and whose buffer and waiters are
  in order, \<open>feed_data(c1), ..., feed_data(cn)\<close> and \<open>feed_eof()\<close> all return, and of
  the \<open>readany()\<close> calls that follow the first returns the bytes that were buffered
  before, followed by \<open>c1 + ... + cn\<close>, and every later one returns the empty string:
  nothing is lost, reordered or duplicated. On a reader with nothing buffered the
  concatenation of the results is \<open>c1 + ... + cn\<close>.
\<close>

lemma readany_after_feeds:
  assumes "well_formed s" "waiters_ok s" "\<not> eof s" "exception s = None"
  shows "\<exists>s1 s2 s3. feed_all cs s = (None, s1) \<and> feed_eof s1 = (None, s2)
           \<and> readany_times (Suc k) s2
               = (Return (remaining s @ concat cs) # replicate k (Return []), s3)"
proof -
  from feed_all_ok [OF assms(1,2,3), of cs] obtain s1 where
    s1: "feed_all cs s = (None, s1)" "well_formed s1" "waiters_ok s1"
      "exception s1 = exception s" "remaining s1 = remaining s @ concat cs" by blast
  from feed_eof_ok [OF s1(2,3)] obtain s2 where
    s2: "feed_eof s1 = (None, s2)" "eof s2" "exception s2 = exception s1"
      "remaining s2 = remaining s1" by blast
  have e2: "exception s2 = None" using s2(3) s1(4) assms(4) by simp
  from readany_ready [of s2] e2 s2(2) obtain t where
    t: "readany s2 = (Return (remaining s2), t)" "remaining t = []" "same_rest s2 t" by auto
  then have "exception t = None" "eof t" using e2 s2(2) by (simp_all add: same_rest_def)
  from readany_times_at_eof [OF this t(2), of k] obtain s3 where
    "readany_times k t = (replicate k (Return []), s3)" by blast
  with t(1) s1 s2 show ?thesis by simp
qed

lemma ex_fresh_ok:
  "well_formed (StreamReader_init 10)" "waiters_ok (StreamReader_init 10)"
  "\<not> eof (StreamReader_init 10)" "exception (StreamReader_init 10) = None"
  "remaining (StreamReader_init 10) = []"
  by code_simp+

subsection \<open>Reading until the empty string\<close>

text \<open>
  The consumer's loop \<open>while True: b = read(n); if not b: break; out.append(b)\<close>, run
  for at most \<open>fuel\<close> calls; \<open>None\<close> when the fuel is used up, or when a call does not
  return a value.
\<close>

fun read_until_empty ::
  "nat \<Rightarrow> int \<Rightarrow> stream_reader \<Rightarrow> (bytes list \<times> stream_reader) option" where
  "read_until_empty 0 n s = None"
| "read_until_empty (Suc fuel) n s =
     (case read n s of
        (Return b, s1) \<Rightarrow>
          if b = [] then Some ([], s1)
          else map_option (\<lambda>(bs, s2). (b # bs, s2)) (read_until_empty fuel n s1)
      | (_, s1) \<Rightarrow> None)"

lemma read_until_empty_ok:
  assumes "well_formed s" "eof s" "exception s = None" "0 < n" "length (remaining s) < fuel"
  shows "\<exists>bs s'. read_until_empty fuel n s = Some (bs, s') \<and> concat bs = remaining s
           \<and> list_all (\<lambda>b. b \<noteq> [] \<and> len b \<le> n) bs"
  using assms
proof (induction fuel arbitrary: s)
  case 0
  then show ?case by simp
next
  case (Suc fuel)
  from read_ready [OF Suc.prems(1,3,4)] Suc.prems(2) obtain s1 where
    s1: "read n s = (Return (take (nat n) (remaining s)), s1)" "well_formed s1"
      "remaining s1 = drop (nat n) (remaining s)" "same_rest s s1" by blast
  show ?case
  proof (cases "take (nat n) (remaining s) = []")
    case True
    then have "remaining s = []" using Suc.prems(4) by (cases "remaining s") auto
    with s1(1) True show ?thesis by simp
  next
    case False
    then have ne: "remaining s \<noteq> []" by auto
    have "length (remaining s1) < fuel"
      using Suc.prems(4,5) ne s1(3) by (cases "remaining s") auto
    moreover have "eof s1" "exception s1 = None"
      using s1(4) Suc.prems(2,3) by (simp_all add: same_rest_def)
    ultimately obtain bs s' where
      ih: "read_until_empty fuel n s1 = Some (bs, s')" "concat bs = remaining s1"
        "list_all (\<lambda>b. b \<noteq> [] \<and> len b \<le> n) bs"
      using Suc.IH [OF s1(2)] Suc.prems(4) by blast
    have "len (take (nat n) (remaining s)) \<le> n" using Suc.prems(4) by (simp add: len_def)
    with s1(1,3) False ih show ?thesis by simp
  qed
qed

lemma read_suspends_iff:
  assumes "well_formed s" "exception s = None" "0 < n"
  shows "(\<exists>w k s'. read n s = (Suspend w k, s'))
         = (buffer s = [] \<and> \<not> eof s \<and> waiter s = None)"
    and "read n s = (Suspend w k, s') \<Longrightarrow> k = InRead n \<and> waiter s' = Some w
           \<and> fut (futures s') w = Pending"
proof -
  have a: "read n s = (Suspend (length (futures s)) (InRead n),
                       s\<lparr>futures := futures s @ [Pending], waiter := Some (length (futures s))\<rparr>)"
    if "buffer s = []" "\<not> eof s" "waiter s = None"
    using that assms by (simp add: read_def sr_read_def wait_start_def decorated_def
        maybe_resume_def Let_def split: option.splits)
  have b: "\<exists>e. read n s = (Raise e, s)" if "buffer s = []" "\<not> eof s" "waiter s \<noteq> None"
    using that assms by (auto simp: read_def sr_read_def wait_start_def decorated_def
        maybe_resume_def Let_def split: option.splits)
  have c: "\<exists>x s'. read n s = (Return x, s')" if "buffer s \<noteq> [] \<or> eof s"
    using read_ready [OF assms that] by blast
  show "(\<exists>w k s'. read n s = (Suspend w k, s'))
         = (buffer s = [] \<and> \<not> eof s \<and> waiter s = None)"
    using a b c by (cases "buffer s = [] \<and> \<not> eof s"; cases "waiter s = None") auto
  show "k = InRead n \<and> waiter s' = Some w \<and> fut (futures s') w = Pending"
    if "read n s = (Suspend w k, s')"
    using a b c that
    by (cases "buffer s = [] \<and> \<not> eof s"; cases "waiter s = None") (auto simp: fut_def)
qed

lemma resume_read:
  assumes "well_formed s" "0 < n" "fut (futures s) w \<noteq> Pending"
  shows "\<exists>x s'. resume (InRead n) w s = (x, s')
           \<and> ((\<exists>e. x = Raise e) \<or> x = Return (take (nat n) (remaining s)))"
proof (cases "fut (futures s) w")
  case Pending
  with assms show ?thesis by simp
next
  case (Result v)
  have w: "well_formed (s\<lparr>waiter := None\<rparr>)" "remaining (s\<lparr>waiter := None\<rparr>) = remaining s"
    using assms(1) buffer_cong [of "s\<lparr>waiter := None\<rparr>" s] by simp_all
  from priv_read_nowait_take [OF w(1) assms(2)] w(2) obtain s1 where
    "priv_read_nowait n (s\<lparr>waiter := None\<rparr>) = (Return (take (nat n) (remaining s)), s1)"
    by auto
  with Result decorated_Return [of "take (nat n) (remaining s)" s1] show ?thesis
    by (auto simp: resume_def wait_resume_def)
next
  case (Failed e)
  then show ?thesis by (simp add: resume_def wait_resume_def)
next
  case Cancelled
  then show ?thesis by (simp add: resume_def wait_resume_def)
qed

lemma read_not_ready:
  assumes "exception s = None" "0 < n" "buffer s = []" "\<not> eof s"
  shows "read n s \<noteq> (Return b, s')"
  using assms
  by (cases "waiter s")
     (auto simp: read_def sr_read_def wait_start_def decorated_def maybe_resume_def Let_def
        split: option.splits)

text \<open>
  On a reader whose buffer is in order and that holds no exception, for \<open>n > 0\<close>:
  a \<open>read(n)\<close> that returns gives at most \<open>n\<close> bytes; it suspends exactly when the
  buffer is empty, EOF has not been signalled and no other waiter is there, and once its
  future is done the resumed call returns at most \<open>n\<close> bytes or raises, without
  suspending again; \<open>read(0)\<close> returns the empty string; and after
  \<open>feed_data(c1), ..., feed_data(cn), feed_eof()\<close> the loop that calls \<open>read(n)\<close>
  until it returns the empty string ends and its results, each non-empty and of at most
  \<open>n\<close> bytes, concatenate to the buffered bytes followed by \<open>c1 + ... + cn\<close>.
\<close>

lemma read_call_and_loop:
  assumes "well_formed s" "exception s = None" "0 < n"
  shows "(\<forall>b s'. read n s = (Return b, s') \<longrightarrow> len b \<le> n)
       \<and> ((\<exists>w k s'. read n s = (Suspend w k, s'))
            = (buffer s = [] \<and> \<not> eof s \<and> waiter s = None))
       \<and> (\<forall>w k s1. read n s = (Suspend w k, s1) \<longrightarrow>
             k = InRead n \<and>
             (\<forall>s2. well_formed s2 \<and> fut (futures s2) w \<noteq> Pending \<longrightarrow>
                (\<exists>x s3. resume k w s2 = (x, s3)
                   \<and> ((\<exists>e. x = Raise e) \<or> (\<exists>b. x = Return b \<and> len b \<le> n)))))
       \<and> (\<exists>s'. read 0 s = (Return [], s'))
       \<and> (\<not> eof s \<and> waiters_ok s \<longrightarrow>
             (\<exists>s1 s2 bs s3. feed_all cs s = (None, s1) \<and> feed_eof s1 = (None, s2)
                \<and> read_until_empty (Suc (length (remaining s @ concat cs))) n s2 = Some (bs, s3)
                \<and> concat bs = remaining s @ concat cs
                \<and> list_all (\<lambda>b. b \<noteq> [] \<and> len b \<le> n) bs))"
proof (intro conjI)
  show "\<forall>b s'. read n s = (Return b, s') \<longrightarrow> len b \<le> n"
  proof (intro allI impI)
    fix b s' assume r: "read n s = (Return b, s')"
    have "buffer s \<noteq> [] \<or> eof s"
      using read_not_ready [OF assms(2,3), of b s'] r by blast
    from read_ready [OF assms this] r have "b = take (nat n) (remaining s)" by auto
    then show "len b \<le> n" using assms(3) by (simp add: len_def)
  qed
next
  show "(\<exists>w k s'. read n s = (Suspend w k, s'))
            = (buffer s = [] \<and> \<not> eof s \<and> waiter s = None)"
    by (rule read_suspends_iff(1) [OF assms])
next
  show "\<forall>w k s1. read n s = (Suspend w k, s1) \<longrightarrow>
             k = InRead n \<and>
             (\<forall>s2. well_formed s2 \<and> fut (futures s2) w \<noteq> Pending \<longrightarrow>
                (\<exists>x s3. resume k w s2 = (x, s3)
                   \<and> ((\<exists>e. x = Raise e) \<or> (\<exists>b. x = Return b \<and> len b \<le> n))))"
  proof (intro allI impI conjI)
    fix w k s1 assume r: "read n s = (Suspend w k, s1)"
    from read_suspends_iff(2) [OF assms r] show k: "k = InRead n" by simp
    fix s2 assume a: "well_formed s2 \<and> fut (futures s2) w \<noteq> Pending"
    from resume_read [of s2 n w] a assms(3) obtain x s3 where
      x: "resume (InRead n) w s2 = (x, s3)"
         "(\<exists>e. x = Raise e) \<or> x = Return (take (nat n) (remaining s2))" by blast
    have "len (take (nat n) (remaining s2)) \<le> n" using assms(3) by (simp add: len_def)
    with x k show "\<exists>x s3. resume k w s2 = (x, s3)
                   \<and> ((\<exists>e. x = Raise e) \<or> (\<exists>b. x = Return b \<and> len b \<le> n))"
      by auto
  qed
next
  show "\<exists>s'. read 0 s = (Return [], s')"
    using assms(2) decorated_Return [of "[]" s] by (auto simp: read_def sr_read_def)
next
  show "\<not> eof s \<and> waiters_ok s \<longrightarrow>
             (\<exists>s1 s2 bs s3. feed_all cs s = (None, s1) \<and> feed_eof s1 = (None, s2)
                \<and> read_until_empty (Suc (length (remaining s @ concat cs))) n s2 = Some (bs, s3)
                \<and> concat bs = remaining s @ concat cs
                \<and> list_all (\<lambda>b. b \<noteq> [] \<and> len b \<le> n) bs)"
  proof
    assume a: "\<not> eof s \<and> waiters_ok s"
    from feed_all_ok [OF assms(1), of cs] a obtain s1 where
      s1: "feed_all cs s = (None, s1)" "well_formed s1" "waiters_ok s1"
        "exception s1 = exception s" "remaining s1 = remaining s @ concat cs" by blast
    from feed_eof_ok [OF s1(2,3)] obtain s2 where
      s2: "feed_eof s1 = (None, s2)" "well_formed s2" "eof s2" "exception s2 = exception s1"
        "remaining s2 = remaining s1" by blast
    have e2: "exception s2 = None" using s2(4) s1(4) assms(2) by simp
    have "length (remaining s2) < Suc (length (remaining s @ concat cs))"
      using s2(5) s1(5) by simp
    from read_until_empty_ok [OF s2(2,3) e2 assms(3) this] s1 s2
    show "\<exists>s1 s2 bs s3. feed_all cs s = (None, s1) \<and> feed_eof s1 = (None, s2)
                \<and> read_until_empty (Suc (length (remaining s @ concat cs))) n s2 = Some (bs, s3)
                \<and> concat bs = remaining s @ concat cs
                \<and> list_all (\<lambda>b. b \<noteq> [] \<and> len b \<le> n) bs"
      by auto
  qed
qed

lemma ex_fresh_empty: "buffer (StreamReader_init 10) = []" "waiter (StreamReader_init 10) = None"
  by code_simp+

lemma remaining_empty_iff: "well_formed s \<Longrightarrow> (remaining s = []) = (buffer s = [])"
  by (cases "buffer s") (auto simp: well_formed_def remaining_def slice_from_nonneg len_def)

lemma read_suspend:
  assumes "exception s = None" "0 < n" "buffer s = []" "\<not> eof s" "waiter s = None"
  shows "read n s = (Suspend (length (futures s)) (InRead n),
                     s\<lparr>futures := futures s @ [Pending], waiter := Some (length (futures s))\<rparr>)"
  using assms
  by (simp add: read_def sr_read_def wait_start_def decorated_def maybe_resume_def Let_def
        split: option.splits)

text \<open>
  What the loop of \<open>readexactly\<close> does when it is entered with \<open>m > 0\<close> bytes still to
  collect: it returns when the buffer holds \<open>m\<close> bytes, raises when EOF was signalled
  before, and otherwise takes what is buffered and suspends.
\<close>

lemma readexactly_loop_empty:
  assumes "well_formed s" "exception s = None" "0 < m" "remaining s = []"
  shows "eof s \<Longrightarrow> \<exists>s'. readexactly_loop blocks m s
            = (Raise (IncompleteReadError (concat blocks) (len (concat blocks) + m)), s')"
    and "\<not> eof s \<Longrightarrow> waiter s = None \<Longrightarrow>
           readexactly_loop blocks m s
            = (Suspend (length (futures s)) (InReadexactly blocks m),
               s\<lparr>futures := futures s @ [Pending], waiter := Some (length (futures s))\<rparr>)"
proof -
  have b: "buffer s = []" using assms(1,4) by (simp add: remaining_empty_iff)
  show "\<exists>s'. readexactly_loop blocks m s
            = (Raise (IncompleteReadError (concat blocks) (len (concat blocks) + m)), s')"
    if "eof s"
  proof -
    from read_ready [OF assms(1,2,3)] that assms(4) obtain s1 where
      "read m s = (Return [], s1)" by auto
    then show ?thesis using assms(3) by simp
  qed
  show "readexactly_loop blocks m s
            = (Suspend (length (futures s)) (InReadexactly blocks m),
               s\<lparr>futures := futures s @ [Pending], waiter := Some (length (futures s))\<rparr>)"
    if "\<not> eof s" "waiter s = None"
    using read_suspend [OF assms(2,3) b that] assms(3) by simp
qed

lemma readexactly_loop_spec:
  assumes "well_formed s" "exception s = None" "0 < m"
  shows "int (length (remaining s)) \<ge> m \<Longrightarrow>
           \<exists>s'. readexactly_loop blocks m s
                  = (Return (concat blocks @ take (nat m) (remaining s)), s')
                \<and> well_formed s' \<and> remaining s' = drop (nat m) (remaining s)
                \<and> same_rest s s'"
    and "int (length (remaining s)) < m \<Longrightarrow> eof s \<Longrightarrow>
           \<exists>s'. readexactly_loop blocks m s
                  = (Raise (IncompleteReadError (concat blocks @ remaining s)
                             (len (concat blocks @ remaining s)
                              + (m - len (remaining s)))), s')"
    and "int (length (remaining s)) < m \<Longrightarrow> \<not> eof s \<Longrightarrow> waiter s = None \<Longrightarrow>
           \<exists>bl w s'. readexactly_loop blocks m s
                  = (Suspend w (InReadexactly bl (m - len (remaining s))), s')
                \<and> concat bl = concat blocks @ remaining s
                \<and> waiter s' = Some w \<and> fut (futures s') w = Pending
                \<and> well_formed s' \<and> remaining s' = [] \<and> exception s' = None \<and> \<not> eof s'"
proof -
  show "\<exists>s'. readexactly_loop blocks m s
                  = (Return (concat blocks @ take (nat m) (remaining s)), s')
                \<and> well_formed s' \<and> remaining s' = drop (nat m) (remaining s)
                \<and> same_rest s s'"
    if ge: "int (length (remaining s)) \<ge> m"
  proof -
    have "remaining s \<noteq> []" using ge assms(3) by auto
    then have "buffer s \<noteq> []" using assms(1) by (simp add: remaining_empty_iff)
    with read_ready [OF assms] obtain s1 where
      s1: "read m s = (Return (take (nat m) (remaining s)), s1)" "well_formed s1"
        "remaining s1 = drop (nat m) (remaining s)" "same_rest s s1" by blast
    have l: "len (take (nat m) (remaining s)) = m" using ge assms(3) by (simp add: len_def)
    then have "take (nat m) (remaining s) \<noteq> []" using assms(3) by (auto simp: len_def)
    with s1 l assms(3) show ?thesis by simp
  qed
  show "\<exists>s'. readexactly_loop blocks m s
                  = (Raise (IncompleteReadError (concat blocks @ remaining s)
                             (len (concat blocks @ remaining s)
                              + (m - len (remaining s)))), s')"
    if lt: "int (length (remaining s)) < m" and e: "eof s"
  proof (cases "remaining s = []")
    case True
    with readexactly_loop_empty(1) [OF assms True e, of blocks] show ?thesis
      by (simp add: len_def)
  next
    case False
    from read_ready [OF assms] e obtain s1 where
      s1: "read m s = (Return (take (nat m) (remaining s)), s1)" "well_formed s1"
        "remaining s1 = drop (nat m) (remaining s)" "same_rest s s1" by blast
    have t: "take (nat m) (remaining s) = remaining s" using lt by simp
    have r1: "remaining s1 = []" using s1(3) lt by simp
    have e1: "eof s1" "exception s1 = None" using s1(4) e assms(2) by (simp_all add: same_rest_def)
    have m1: "0 < m - len (remaining s)" using lt by (simp add: len_def)
    from readexactly_loop_empty(1) [OF s1(2) e1(2) m1 r1 e1(1), of "blocks @ [remaining s]"]
    show ?thesis using s1(1) t False assms(3) by simp
  qed
  show "\<exists>bl w s'. readexactly_loop blocks m s
                  = (Suspend w (InReadexactly bl (m - len (remaining s))), s')
                \<and> concat bl = concat blocks @ remaining s
                \<and> waiter s' = Some w \<and> fut (futures s') w = Pending
                \<and> well_formed s' \<and> remaining s' = [] \<and> exception s' = None \<and> \<not> eof s'"
    if lt: "int (length (remaining s)) < m" and e: "\<not> eof s" and w: "waiter s = None"
  proof -
    have k: "\<exists>bl w s'. readexactly_loop blocks' m' t
                  = (Suspend w (InReadexactly bl m'), s')
                \<and> concat bl = concat blocks'
                \<and> waiter s' = Some w \<and> fut (futures s') w = Pending
                \<and> well_formed s' \<and> remaining s' = [] \<and> exception s' = None \<and> \<not> eof s'"
      if "well_formed t" "exception t = None" "0 < m'" "remaining t = []" "\<not> eof t"
         "waiter t = None" for t blocks' m'
    proof -
      let ?t' = "t\<lparr>futures := futures t @ [Pending], waiter := Some (length (futures t))\<rparr>"
      have "well_formed ?t'" "remaining ?t' = remaining t"
        using that(1) buffer_cong [of ?t' t] by simp_all
      with readexactly_loop_empty(2) [OF that(1,2,3,4,5,6), of blocks'] that show ?thesis
        by (auto simp: fut_def)
    qed
    show ?thesis
    proof (cases "remaining s = []")
      case True
      with k [OF assms True e w, of blocks] show ?thesis by (simp add: len_def)
    next
      case False
      then have "buffer s \<noteq> []" using assms(1) by (simp add: remaining_empty_iff)
      with read_ready [OF assms] obtain s1 where
        s1: "read m s = (Return (take (nat m) (remaining s)), s1)" "well_formed s1"
          "remaining s1 = drop (nat m) (remaining s)" "same_rest s s1" by blast
      have t: "take (nat m) (remaining s) = remaining s" using lt by simp
      have r1: "remaining s1 = []" using s1(3) lt by simp
      have e1: "\<not> eof s1" "exception s1 = None" "waiter s1 = None"
        using s1(4) e w assms(2) by (simp_all add: same_rest_def)
      have m1: "0 < m - len (remaining s)" using lt by (simp add: len_def)
      from k [OF s1(2) e1(2) m1 r1 e1(1) e1(3), of "blocks @ [remaining s]"]
      show ?thesis using s1(1) t False assms(3) by simp
    qed
  qed
qed

lemma decorated_Raise [simp]: "decorated (Raise e, s) = (Raise e, s)"
  by (simp add: decorated_def maybe_resume_def split: option.splits)

lemma decorated_Suspend [simp]: "decorated (Suspend w k, s) = (Suspend w k, s)"
  by (simp add: decorated_def maybe_resume_def split: option.splits)

lemma decorated_ReturnE:
  obtains s' where "decorated (Return x, s) = (Return x, s')" "well_formed s' = well_formed s"
    "remaining s' = remaining s" "same_rest s s'"
  using decorated_keeps [of x s] by (cases "decorated (Return x, s)") auto

lemma resume_readexactly_spec:
  assumes wf: "well_formed s" and ex: "exception s = None" and m: "0 < m"
    and f: "fut (futures s) w = Result v"
  shows "int (length (remaining s)) \<ge> m \<Longrightarrow>
           \<exists>s'. resume (InReadexactly bl m) w s
                  = (Return (concat bl @ take (nat m) (remaining s)), s')"
    and "int (length (remaining s)) < m \<Longrightarrow> eof s \<Longrightarrow>
           \<exists>s'. resume (InReadexactly bl m) w s
                  = (Raise (IncompleteReadError (concat bl @ remaining s)
                             (len (concat bl @ remaining s) + (m - len (remaining s)))), s')"
    and "int (length (remaining s)) < m \<Longrightarrow> \<not> eof s \<Longrightarrow> remaining s \<noteq> [] \<Longrightarrow>
           \<exists>bl' w' s'. resume (InReadexactly bl m) w s
                  = (Suspend w' (InReadexactly bl' (m - len (remaining s))), s')
                \<and> concat bl' = concat bl @ remaining s"
proof -
  let ?s0 = "s\<lparr>waiter := None\<rparr>"
  have w0: "well_formed ?s0" and r0: "remaining ?s0 = remaining s"
    using wf buffer_cong [of ?s0 s] by simp_all
  from priv_read_nowait_take [OF w0 m] r0 obtain s1 where
    s1: "priv_read_nowait m ?s0 = (Return (take (nat m) (remaining s)), s1)"
      "well_formed s1" "remaining s1 = drop (nat m) (remaining s)" "same_rest ?s0 s1"
    by auto
  obtain s2 where
    s2: "decorated (Return (take (nat m) (remaining s)), s1)
           = (Return (take (nat m) (remaining s)), s2)"
      "well_formed s2 = well_formed s1" "remaining s2 = remaining s1" "same_rest s1 s2"
    by (rule decorated_ReturnE)
  have p: "exception s2 = None" "eof s2 = eof s" "waiter s2 = None" "well_formed s2"
    "remaining s2 = drop (nat m) (remaining s)"
    using s1 s2 ex by (simp_all add: same_rest_def)
  have R: "resume (InReadexactly bl m) w s
           = decorated (readexactly_cont bl m (Return (take (nat m) (remaining s)), s2))"
    using f s1(1) s2(1) by (simp add: resume_def wait_resume_def)
  show "\<exists>s'. resume (InReadexactly bl m) w s
                  = (Return (concat bl @ take (nat m) (remaining s)), s')"
    if ge: "int (length (remaining s)) \<ge> m"
  proof -
    have l: "len (take (nat m) (remaining s)) = m" using ge m by (simp add: len_def)
    then have "take (nat m) (remaining s) \<noteq> []" using m by (auto simp: len_def)
    then have "readexactly_cont bl m (Return (take (nat m) (remaining s)), s2)
               = (Return (concat bl @ take (nat m) (remaining s)), s2)"
      using l by (simp add: readexactly_cont_def)
    with R decorated_Return [of "concat bl @ take (nat m) (remaining s)" s2]
    show ?thesis by auto
  qed
  have t: "take (nat m) (remaining s) = remaining s" "remaining s2 = []"
    if "int (length (remaining s)) < m"
    using that p(5) by simp_all
  show "\<exists>s'. resume (InReadexactly bl m) w s
                  = (Raise (IncompleteReadError (concat bl @ remaining s)
                             (len (concat bl @ remaining s) + (m - len (remaining s)))), s')"
    if lt: "int (length (remaining s)) < m" and e: "eof s"
  proof (cases "remaining s = []")
    case True
    then show ?thesis using R t [OF lt] by (simp add: readexactly_cont_def len_def)
  next
    case False
    have m1: "0 < m - len (remaining s)" using lt by (simp add: len_def)
    from readexactly_loop_empty(1) [OF p(4) p(1) m1 t(2) [OF lt], of "bl @ [remaining s]"]
      e p(2)
    show ?thesis using R t [OF lt] False by (auto simp: readexactly_cont_def)
  qed
  show "\<exists>bl' w' s'. resume (InReadexactly bl m) w s
                  = (Suspend w' (InReadexactly bl' (m - len (remaining s))), s')
                \<and> concat bl' = concat bl @ remaining s"
    if lt: "int (length (remaining s)) < m" and e: "\<not> eof s" and ne: "remaining s \<noteq> []"
  proof -
    have m1: "0 < m - len (remaining s)" using lt by (simp add: len_def)
    from readexactly_loop_empty(2) [OF p(4) p(1) m1 t(2) [OF lt], of "bl @ [remaining s]"]
      e p(2,3)
    show ?thesis using R t [OF lt] ne by (auto simp: readexactly_cont_def)
  qed
qed

text \<open>
  On a reader whose buffer is in order and that holds no exception, for \<open>n > 0\<close>:
  when at least \<open>n\<close> bytes are buffered, \<open>readexactly(n)\<close> returns the first \<open>n\<close> of
  them, exactly \<open>n\<close> bytes; when fewer are buffered and EOF was signalled, it raises
  \<open>IncompleteReadError\<close> with the buffered bytes (fewer than \<open>n\<close>) as \<open>partial\<close> and
  \<open>n\<close>, the length of \<open>partial\<close> plus the bytes still missing, as the expected count;
  when fewer are buffered and EOF was not signalled, it collects them and suspends, and
  resumed after more data or EOF has arrived it returns the collected bytes followed by
  the missing ones, \<open>n\<close> bytes in all, once they are there, and raises
  \<open>IncompleteReadError\<close> with everything collected and the expected count \<open>n\<close> when
  EOF came first.
\<close>

lemma readexactly_call:
  assumes "well_formed s" "exception s = None" "0 < n"
  shows "(n \<le> len (remaining s) \<longrightarrow>
            (\<exists>s'. readexactly n s = (Return (take (nat n) (remaining s)), s'))
            \<and> len (take (nat n) (remaining s)) = n)
       \<and> (len (remaining s) < n \<and> eof s \<longrightarrow>
            (\<exists>s'. readexactly n s = (Raise (IncompleteReadError (remaining s) n), s')))
       \<and> (len (remaining s) < n \<and> \<not> eof s \<and> waiter s = None \<longrightarrow>
            (\<exists>bl w s1. readexactly n s
                         = (Suspend w (InReadexactly bl (n - len (remaining s))), s1)
               \<and> concat bl = remaining s \<and> fut (futures s1) w = Pending
               \<and> (\<forall>s2 v. well_formed s2 \<and> exception s2 = None
                          \<and> fut (futures s2) w = Result v \<longrightarrow>
                     (n - len (remaining s) \<le> len (remaining s2) \<longrightarrow>
                        (\<exists>s3. resume (InReadexactly bl (n - len (remaining s))) w s2
                               = (Return (remaining s
                                    @ take (nat (n - len (remaining s))) (remaining s2)), s3))
                        \<and> len (remaining s
                                @ take (nat (n - len (remaining s))) (remaining s2)) = n)
                   \<and> (len (remaining s2) < n - len (remaining s) \<and> eof s2 \<longrightarrow>
                        (\<exists>s3. resume (InReadexactly bl (n - len (remaining s))) w s2
                               = (Raise (IncompleteReadError (remaining s @ remaining s2) n),
                                  s3))))))"
proof (intro conjI impI)
  assume ge: "n \<le> len (remaining s)"
  then have "n \<le> int (length (remaining s))" by (simp add: len_def)
  from readexactly_loop_spec(1) [OF assms this, of "[]"] obtain s1 where
    "readexactly_loop [] n s = (Return (take (nat n) (remaining s)), s1)" by auto
  with decorated_Return [of "take (nat n) (remaining s)" s1] assms(2)
  show "\<exists>s'. readexactly n s = (Return (take (nat n) (remaining s)), s')"
    by (auto simp: readexactly_def sr_readexactly_def)
  show "len (take (nat n) (remaining s)) = n" using ge assms(3) by (simp add: len_def)
next
  assume a: "len (remaining s) < n \<and> eof s"
  then have "int (length (remaining s)) < n" by (simp add: len_def)
  from readexactly_loop_spec(2) [OF assms this, of "[]"] a
  show "\<exists>s'. readexactly n s = (Raise (IncompleteReadError (remaining s) n), s')"
    using assms(2) by (auto simp: readexactly_def sr_readexactly_def len_def)
next
  assume a: "len (remaining s) < n \<and> \<not> eof s \<and> waiter s = None"
  let ?m = "n - len (remaining s)"
  have lt: "int (length (remaining s)) < n" and m: "0 < ?m" using a by (simp_all add: len_def)
  from readexactly_loop_spec(3) [OF assms lt, of "[]"] a obtain bl w s1 where
    s1: "readexactly_loop [] n s = (Suspend w (InReadexactly bl ?m), s1)"
        "concat bl = remaining s" "fut (futures s1) w = Pending" by auto
  have r: "readexactly n s = (Suspend w (InReadexactly bl ?m), s1)"
    using s1(1) assms(2) by (simp add: readexactly_def sr_readexactly_def)
  have k: "(?m \<le> len (remaining s2) \<longrightarrow>
              (\<exists>s3. resume (InReadexactly bl ?m) w s2
                      = (Return (remaining s @ take (nat ?m) (remaining s2)), s3))
              \<and> len (remaining s @ take (nat ?m) (remaining s2)) = n)
         \<and> (len (remaining s2) < ?m \<and> eof s2 \<longrightarrow>
              (\<exists>s3. resume (InReadexactly bl ?m) w s2
                      = (Raise (IncompleteReadError (remaining s @ remaining s2) n), s3)))"
    if h: "well_formed s2 \<and> exception s2 = None \<and> fut (futures s2) w = Result v" for s2 v
  proof (intro conjI impI)
    assume ge: "?m \<le> len (remaining s2)"
    then have "?m \<le> int (length (remaining s2))" by (simp add: len_def)
    from resume_readexactly_spec(1) [OF _ _ m _ this, of w v bl] h s1(2)
    show "\<exists>s3. resume (InReadexactly bl ?m) w s2
                      = (Return (remaining s @ take (nat ?m) (remaining s2)), s3)"
      by auto
    show "len (remaining s @ take (nat ?m) (remaining s2)) = n"
      using ge m by (simp add: len_def)
  next
    assume b: "len (remaining s2) < ?m \<and> eof s2"
    then have "int (length (remaining s2)) < ?m" by (simp add: len_def)
    from resume_readexactly_spec(2) [OF _ _ m _ this, of w v bl] h s1(2) b
    show "\<exists>s3. resume (InReadexactly bl ?m) w s2
                      = (Raise (IncompleteReadError (remaining s @ remaining s2) n), s3)"
      by (auto simp: len_def)
  qed
  from r s1(2,3) k
  show "\<exists>bl w s1. readexactly n s = (Suspend w (InReadexactly bl ?m), s1)
               \<and> concat bl = remaining s \<and> fut (futures s1) w = Pending
               \<and> (\<forall>s2 v. well_formed s2 \<and> exception s2 = None
                          \<and> fut (futures s2) w = Result v \<longrightarrow>
                     (?m \<le> len (remaining s2) \<longrightarrow>
                        (\<exists>s3. resume (InReadexactly bl ?m) w s2
                               = (Return (remaining s @ take (nat ?m) (remaining s2)), s3))
                        \<and> len (remaining s @ take (nat ?m) (remaining s2)) = n)
                   \<and> (len (remaining s2) < ?m \<and> eof s2 \<longrightarrow>
                        (\<exists>s3. resume (InReadexactly bl ?m) w s2
                               = (Raise (IncompleteReadError (remaining s @ remaining s2) n),
                                  s3))))"
    by blast
qed

lemma ex_short:
  "well_formed (reader_of [''abc''] 0 True)" "exception (reader_of [''abc''] 0 True) = None"
  "remaining (reader_of [''abc''] 0 True) = ''abc''" "eof (reader_of [''abc''] 0 True)"
  by code_simp+

lemma ex_long:
  "well_formed (reader_of [''abcd'', ''ef''] 0 False)"
  "exception (reader_of [''abcd'', ''ef''] 0 False) = None"
  "remaining (reader_of [''abcd'', ''ef''] 0 False) = ''abcdef''"
  by code_simp+

subsection \<open>Lines\<close>

fun first_line :: "bytes \<Rightarrow> bytes" where
  \<comment> \<open>the bytes up to and including the first newline, or all of them when there is none\<close>
  "first_line [] = []"
| "first_line (c # cs) = (if c = newline then [c] else c # first_line cs)"

lemma index_of_None: "(index_of c xs = None) = (c \<notin> set xs)"
  by (induction xs) auto

lemma index_of_Some:
  "index_of newline xs = Some i \<Longrightarrow> i < length xs \<and> take (Suc i) xs = first_line xs"
  by (induction xs arbitrary: i) (auto split: if_splits)

lemma first_line_append_no_nl:
  "newline \<notin> set xs \<Longrightarrow> first_line (xs @ ys) = xs @ first_line ys"
  by (induction xs) auto

lemma first_line_append_nl:
  "newline \<in> set xs \<Longrightarrow> first_line (xs @ ys) = first_line xs"
  by (induction xs) auto

lemma first_line_no_nl: "newline \<notin> set xs \<Longrightarrow> first_line xs = xs"
  by (induction xs) auto

lemma first_line_prefix: "first_line xs = take (length (first_line xs)) xs"
  by (induction xs) auto

lemma first_line_nonempty: "xs \<noteq> [] \<Longrightarrow> first_line xs \<noteq> []"
  by (cases xs) auto

lemma find_byte_newline:
  assumes "0 \<le> offset" "offset \<le> int (length b)"
  shows "find_byte b newline offset + 1
         = (case index_of newline (drop (nat offset) b) of
              None \<Rightarrow> 0 | Some i \<Rightarrow> offset + int i + 1)"
  using assms by (auto simp: find_byte_def py_index_def Let_def min_def split: option.splits)

lemma chunk_exact:
  assumes wf: "well_formed s" and b: "buffer s = first # rest" and n: "0 < n"
    and le: "n \<le> len first - buffer_offset s"
  shows "\<exists>s'. priv_read_nowait_chunk n s
                = Inr (take (nat n) (drop (nat (buffer_offset s)) first), s')
           \<and> well_formed s' \<and> remaining s' = drop (nat n) (remaining s)
           \<and> same_rest s s' \<and> flow s' = flow s
           \<and> length (buffer s') \<le> length (buffer s)"
proof -
  have ne: "buffer s \<noteq> []" using b by simp
  from chunk_step [OF wf ne n] obtain data s' where
    c: "priv_read_nowait_chunk n s = Inr (data, s')" "length data \<le> nat n"
      "data = take (length data) (remaining s)"
      "remaining s' = drop (length data) (remaining s)"
      "well_formed s'" "same_rest s s'" "flow s' = flow s"
      "length data < nat n \<longrightarrow> length (buffer s') < length (buffer s)" by blast
  have o: "0 \<le> buffer_offset s" using wf by (simp add: well_formed_def)
  have r: "remaining s = drop (nat (buffer_offset s)) first @ concat rest"
    by (rule remaining_Cons [OF wf b])
  have l: "length data = nat n"
  proof (cases "n < len first - buffer_offset s")
    case True
    from chunk_partial [OF wf b n True] c(1) True o n show ?thesis by (auto simp: len_def)
  next
    case False
    with le have e: "n = len first - buffer_offset s" by simp
    from chunk_whole [OF wf b, of n] e c(1) o show ?thesis by (auto simp: len_def)
  qed
  have "take (nat n) (remaining s) = take (nat n) (drop (nat (buffer_offset s)) first)"
    using le o n by (simp add: r len_def)
  moreover have "length (buffer s') \<le> length (buffer s)"
    using chunk_buffer_length(1) [OF c(1)] .
  ultimately show ?thesis using c l by auto
qed

lemma readline_loop_empty:
  assumes "buffer s = []"
  shows "eof s \<Longrightarrow> readline_loop line sz True s = (Return (concat line), s)"
    and "\<not> eof s \<Longrightarrow> waiter s = None \<Longrightarrow>
           readline_loop line sz True s
           = (Suspend (length (futures s)) (InReadline line sz),
              s\<lparr>futures := futures s @ [Pending], waiter := Some (length (futures s))\<rparr>)"
  using assms by (simp_all add: wait_start_def Let_def)

lemma readline_loop_found:
  "readline_loop line sz False s = (Return (concat line), s)"
  by simp

lemma readline_loop_nl:
  assumes wf: "well_formed s" and b: "buffer s = first # rest"
    and nl: "newline \<in> set (drop (nat (buffer_offset s)) first)"
  shows "\<exists>s1. readline_loop line sz True s
           = (if sz + len (first_line (remaining s)) > limit s
              then Raise (ValueError ''Line is too long'')
              else Return (concat line @ first_line (remaining s)), s1)
         \<and> well_formed s1
         \<and> remaining s1 = drop (length (first_line (remaining s))) (remaining s)
         \<and> same_rest s s1 \<and> flow s1 = flow s"
proof -
  let ?o = "buffer_offset s" and ?d = "drop (nat (buffer_offset s)) first"
  have o: "0 \<le> ?o" "?o < len first" using wf b by (auto simp: well_formed_def)
  from nl obtain i where i: "index_of newline ?d = Some i"
    using index_of_None [of newline ?d] by (cases "index_of newline ?d") auto
  from index_of_Some [OF i] have il: "i < length ?d" and fl: "take (Suc i) ?d = first_line ?d"
    by simp_all
  have r: "remaining s = ?d @ concat rest" by (rule remaining_Cons [OF wf b])
  have flr: "first_line (remaining s) = first_line ?d"
    using first_line_append_nl [OF nl] r by simp
  have ichar: "find_byte first newline ?o + 1 = ?o + int i + 1"
    using find_byte_newline [of ?o first] o i by (simp add: len_def)
  have n: "0 < int i + 1" by simp
  have le: "int i + 1 \<le> len first - ?o" using il o by (simp add: len_def)
  from chunk_exact [OF wf b n le] obtain s1 where
    c: "priv_read_nowait_chunk (int i + 1) s = Inr (take (nat (int i + 1)) ?d, s1)"
      "well_formed s1" "remaining s1 = drop (nat (int i + 1)) (remaining s)"
      "same_rest s s1" "flow s1 = flow s" by blast
  have t: "take (nat (int i + 1)) ?d = first_line ?d" using fl by (simp add: nat_add_distrib)
  have lfl: "length (first_line ?d) = Suc i" using fl il
    by (metis Suc_leI length_take min.absorb2)
  have lim: "limit s1 = limit s" using c(4) by (simp add: same_rest_def)
  have "readline_loop line sz True s
        = (if sz + len (first_line ?d) > limit s
           then Raise (ValueError ''Line is too long'')
           else Return (concat line @ first_line ?d), s1)"
    using b ichar c(1) t lim o(1) by (subst readline_loop.simps) (simp add: Let_def)
  moreover have "remaining s1 = drop (length (first_line ?d)) (remaining s)"
    using c(3) lfl by (simp add: nat_add_distrib)
  ultimately show ?thesis using flr c by auto
qed

lemma readline_loop_no_nl:
  assumes wf: "well_formed s" and b: "buffer s = first # rest"
    and nl: "newline \<notin> set (drop (nat (buffer_offset s)) first)"
  defines "d \<equiv> drop (nat (buffer_offset s)) first"
  defines "s1 \<equiv> s\<lparr>buffer := rest, buffer_offset := 0,
                    buffer_size := buffer_size s - (len first - buffer_offset s)\<rparr>"
  shows "readline_loop line sz True s
           = (if sz + len d > limit s then (Raise (ValueError ''Line is too long''), s1)
              else readline_loop (line @ [d]) (sz + len d) True s1)"
    and "well_formed s1" and "remaining s = d @ remaining s1" and "d \<noteq> []"
proof -
  let ?o = "buffer_offset s"
  have o: "0 \<le> ?o" "?o < len first" using wf b by (auto simp: well_formed_def)
  have i: "index_of newline (drop (nat ?o) first) = None"
    using nl by (simp add: index_of_None)
  have ichar: "find_byte first newline ?o + 1 = 0"
    using find_byte_newline [of ?o first] o i by (simp add: len_def)
  have c: "priv_read_nowait_chunk (-1) s = Inr (d, s1)"
    unfolding d_def s1_def by (rule chunk_whole [OF wf b]) simp
  show "readline_loop line sz True s
           = (if sz + len d > limit s then (Raise (ValueError ''Line is too long''), s1)
              else readline_loop (line @ [d]) (sz + len d) True s1)"
    using b ichar c by (subst readline_loop.simps) (simp add: Let_def s1_def)
  show "well_formed s1" unfolding s1_def by (rule well_formed_whole [OF wf b])
  have "remaining s1 = concat rest"
    unfolding s1_def by (cases rest) (simp_all add: remaining_def)
  then show "remaining s = d @ remaining s1"
    using remaining_Cons [OF wf b] by (simp add: d_def)
  show "d \<noteq> []" using o by (auto simp: d_def len_def)
qed

definition too_long :: "int \<Rightarrow> stream_reader \<Rightarrow> bool" where
  \<comment> \<open>with \<open>sz\<close> bytes of the line collected, the rest of the line exceeds the limit\<close>
  "too_long sz s =
     (remaining s \<noteq> [] \<and> sz + len (first_line (remaining s)) > limit s)"

lemma readline_loop_busy:
  assumes "buffer s = []" "\<not> eof s" "waiter s \<noteq> None"
  shows "\<exists>e. readline_loop line sz True s = (Raise (RuntimeError e), s)"
  using assms by (simp add: wait_start_def)

lemma readline_loop_spec:
  assumes "well_formed s"
  shows "(too_long sz s \<longrightarrow>
            (\<exists>s'. readline_loop line sz True s = (Raise (ValueError ''Line is too long''), s')))
       \<and> (\<not> too_long sz s \<and> (newline \<in> set (remaining s) \<or> eof s) \<longrightarrow>
            (\<exists>s'. readline_loop line sz True s
                    = (Return (concat line @ first_line (remaining s)), s')
               \<and> well_formed s'
               \<and> remaining s' = drop (length (first_line (remaining s))) (remaining s)
               \<and> same_rest s s' \<and> flow s' = flow s))
       \<and> (\<not> too_long sz s \<and> newline \<notin> set (remaining s) \<and> \<not> eof s \<and> waiter s = None \<longrightarrow>
            (\<exists>line' w s'. readline_loop line sz True s
                    = (Suspend w (InReadline line' (sz + len (remaining s))), s')
               \<and> concat line' = concat line @ remaining s
               \<and> waiter s' = Some w \<and> fut (futures s') w = Pending
               \<and> well_formed s' \<and> remaining s' = [] \<and> exception s' = exception s
               \<and> \<not> eof s' \<and> limit s' = limit s \<and> flow s' = flow s))
       \<and> (\<not> too_long sz s \<and> newline \<notin> set (remaining s) \<and> \<not> eof s \<and> waiter s \<noteq> None \<longrightarrow>
            (\<exists>e s'. readline_loop line sz True s = (Raise (RuntimeError e), s')))"
  using assms
proof (induction "length (buffer s)" arbitrary: line sz s rule: less_induct)
  case less
  note wf = less.prems
  show ?case
  proof (cases "buffer s")
    case Nil
    then have r: "remaining s = []" by (simp add: remaining_def)
    let ?s' = "s\<lparr>futures := futures s @ [Pending], waiter := Some (length (futures s))\<rparr>"
    have "well_formed ?s'" "remaining ?s' = []"
      using wf r buffer_cong [of ?s' s] by simp_all
    with Nil r wf readline_loop_empty [OF Nil, of line sz]
      readline_loop_busy [OF Nil, of line sz] show ?thesis
      by (auto simp: too_long_def len_def fut_def)
  next
    case (Cons first rest)
    let ?d = "drop (nat (buffer_offset s)) first"
    have r: "remaining s = ?d @ concat rest" by (rule remaining_Cons [OF wf Cons])
    show ?thesis
    proof (cases "newline \<in> set ?d")
      case True
      then have "newline \<in> set (remaining s)" using r by simp
      moreover have "remaining s \<noteq> []" using True r by auto
      ultimately show ?thesis
        using readline_loop_nl [OF wf Cons True, of line sz]
        by (auto simp: too_long_def)
    next
      case False
      let ?s1 = "s\<lparr>buffer := rest, buffer_offset := 0,
                    buffer_size := buffer_size s - (len first - buffer_offset s)\<rparr>"
      note step = readline_loop_no_nl [OF wf Cons False]
      have fl: "first_line (remaining s) = ?d @ first_line (remaining ?s1)"
        using step(3) first_line_append_no_nl [OF False] by simp
      have nl: "(newline \<in> set (remaining s)) = (newline \<in> set (remaining ?s1))"
        using step(3) False by auto
      have ne: "remaining s \<noteq> []" using step(3,4) by simp
      have lt: "length (buffer ?s1) < length (buffer s)" using Cons by simp
      note ih = less.hyps [OF lt step(2), where sz = "sz + len ?d" and line = "line @ [?d]"]
      have f: "limit ?s1 = limit s" "eof ?s1 = eof s" "waiter ?s1 = waiter s"
        "exception ?s1 = exception s" "flow ?s1 = flow s" "same_rest s ?s1"
        by (simp_all add: same_rest_def)
      show ?thesis
      proof (cases "sz + len ?d > limit s")
        case True
        then have "too_long sz s" using ne fl by (simp add: too_long_def len_def)
        with step(1) [of line sz] True show ?thesis by auto
      next
        case ok: False
        have tl: "too_long sz s = too_long (sz + len ?d) ?s1"
          using ne fl f(1) ok first_line_nonempty [of "remaining ?s1"]
          by (cases "remaining ?s1 = []") (auto simp: too_long_def len_def)
        have e: "readline_loop line sz True s
                 = readline_loop (line @ [?d]) (sz + len ?d) True ?s1"
          using step(1) [of line sz] ok by simp
        have l1: "sz + len ?d + len (remaining ?s1) = sz + len (remaining s)"
          using step(3) by (simp add: len_def)
        have d1: "drop (length (first_line (remaining ?s1))) (remaining ?s1)
                  = drop (length (first_line (remaining s))) (remaining s)"
          using fl step(3) by simp
        have c1: "concat (line @ [?d]) @ first_line (remaining ?s1)
                  = concat line @ first_line (remaining s)"
          "concat (line @ [?d]) @ remaining ?s1 = concat line @ remaining s"
          using fl step(3) by simp_all
        show ?thesis
        proof (intro conjI impI)
          assume "too_long sz s"
          with ih tl e
          show "\<exists>s'. readline_loop line sz True s
                      = (Raise (ValueError ''Line is too long''), s')" by simp
        next
          assume a: "\<not> too_long sz s \<and> (newline \<in> set (remaining s) \<or> eof s)"
          with ih tl nl f(2) obtain s' where
            s': "readline_loop (line @ [?d]) (sz + len ?d) True ?s1
                  = (Return (concat (line @ [?d]) @ first_line (remaining ?s1)), s')"
              "well_formed s'"
              "remaining s' = drop (length (first_line (remaining ?s1))) (remaining ?s1)"
              "same_rest ?s1 s'" "flow s' = flow ?s1" by auto
          from s' e c1(1) d1 same_rest_trans [OF f(6) s'(4)] f(5)
          show "\<exists>s'. readline_loop line sz True s
                    = (Return (concat line @ first_line (remaining s)), s')
               \<and> well_formed s'
               \<and> remaining s' = drop (length (first_line (remaining s))) (remaining s)
               \<and> same_rest s s' \<and> flow s' = flow s" by auto
        next
          assume a: "\<not> too_long sz s \<and> newline \<notin> set (remaining s) \<and> \<not> eof s
                     \<and> waiter s = None"
          with ih tl nl f(2,3) obtain line' w s' where
            s': "readline_loop (line @ [?d]) (sz + len ?d) True ?s1
                  = (Suspend w (InReadline line' (sz + len ?d + len (remaining ?s1))), s')"
              "concat line' = concat (line @ [?d]) @ remaining ?s1"
              "waiter s' = Some w" "fut (futures s') w = Pending"
              "well_formed s'" "remaining s' = []" "exception s' = exception ?s1"
              "\<not> eof s'" "limit s' = limit ?s1" "flow s' = flow ?s1" by auto
          from s' e c1(2) l1 f
          show "\<exists>line' w s'. readline_loop line sz True s
                    = (Suspend w (InReadline line' (sz + len (remaining s))), s')
               \<and> concat line' = concat line @ remaining s
               \<and> waiter s' = Some w \<and> fut (futures s') w = Pending
               \<and> well_formed s' \<and> remaining s' = [] \<and> exception s' = exception s
               \<and> \<not> eof s' \<and> limit s' = limit s \<and> flow s' = flow s" by auto
        next
          assume a: "\<not> too_long sz s \<and> newline \<notin> set (remaining s) \<and> \<not> eof s
                     \<and> waiter s \<noteq> None"
          with ih tl nl f(2,3) e
          show "\<exists>e s'. readline_loop line sz True s = (Raise (RuntimeError e), s')"
            by auto
        qed
      qed
    qed
  qed
qed

lemma first_line_longer:
  "(k < length (first_line xs)) = (k < length xs \<and> newline \<notin> set (take k xs))"
proof (induction xs arbitrary: k)
  case Nil
  then show ?case by simp
next
  case (Cons x xs)
  then show ?case by (cases k) auto
qed

lemma too_long_iff:
  assumes "0 \<le> limit s"
  shows "too_long 0 s = (limit s < len (remaining s)
                         \<and> newline \<notin> set (take (nat (limit s)) (remaining s)))"
proof -
  have "(limit s < len (first_line (remaining s)))
        = (nat (limit s) < length (first_line (remaining s)))"
    using assms by (auto simp: len_def)
  also have "\<dots> = (nat (limit s) < length (remaining s)
                   \<and> newline \<notin> set (take (nat (limit s)) (remaining s)))"
    by (rule first_line_longer)
  finally show ?thesis using assms by (auto simp: too_long_def len_def)
qed

lemma first_line_eq_Nil [simp]: "(first_line xs = []) = (xs = [])"
  by (cases xs) auto

lemma first_line_last:
  "newline \<in> set xs \<Longrightarrow>
     last (first_line xs) = newline \<and> newline \<notin> set (butlast (first_line xs))"
  by (induction xs) auto

lemma readline_eq_loop:
  "exception s = None \<Longrightarrow> readline s = decorated (readline_loop [] 0 True s)"
  by (simp add: readline_def sr_readline_def)

lemma resume_readline_eq_loop:
  "fut (futures s) w = Result v \<Longrightarrow>
     resume (InReadline line sz) w s
     = decorated (readline_loop line sz True (s\<lparr>waiter := None\<rparr>))"
  by (simp add: resume_def wait_resume_def)

lemma waiter_None_same:
  "well_formed (s\<lparr>waiter := None\<rparr>) = well_formed s"
  "remaining (s\<lparr>waiter := None\<rparr>) = remaining s"
  "too_long sz (s\<lparr>waiter := None\<rparr>) = too_long sz s"
  using buffer_cong [of "s\<lparr>waiter := None\<rparr>" s] by (simp_all add: too_long_def)

text \<open>What \<open>readline\<close> does, from its call or resumed with a line partly collected.\<close>

lemma decorated_readline_loop:
  assumes "well_formed s"
  shows "too_long sz s \<Longrightarrow>
           \<exists>s'. decorated (readline_loop line sz True s)
                  = (Raise (ValueError ''Line is too long''), s')"
    and "\<not> too_long sz s \<Longrightarrow> newline \<in> set (remaining s) \<or> eof s \<Longrightarrow>
           \<exists>s'. decorated (readline_loop line sz True s)
                  = (Return (concat line @ first_line (remaining s)), s')
              \<and> well_formed s'
              \<and> remaining s' = drop (length (first_line (remaining s))) (remaining s)"
    and "\<not> too_long sz s \<Longrightarrow> newline \<notin> set (remaining s) \<Longrightarrow> \<not> eof s \<Longrightarrow>
         waiter s = None \<Longrightarrow>
           \<exists>line' w s'. decorated (readline_loop line sz True s)
                  = (Suspend w (InReadline line' (sz + len (remaining s))), s')
              \<and> concat line' = concat line @ remaining s \<and> fut (futures s') w = Pending"
    and "\<not> too_long sz s \<Longrightarrow> newline \<notin> set (remaining s) \<Longrightarrow> \<not> eof s \<Longrightarrow>
         waiter s \<noteq> None \<Longrightarrow>
           \<exists>e s'. decorated (readline_loop line sz True s) = (Raise (RuntimeError e), s')"
proof -
  note spec = readline_loop_spec [OF assms, of sz line]
  show "\<exists>s'. decorated (readline_loop line sz True s)
                  = (Raise (ValueError ''Line is too long''), s')"
    if "too_long sz s"
    using spec that by auto
  show "\<exists>s'. decorated (readline_loop line sz True s)
                  = (Return (concat line @ first_line (remaining s)), s')
              \<and> well_formed s'
              \<and> remaining s' = drop (length (first_line (remaining s))) (remaining s)"
    if "\<not> too_long sz s" "newline \<in> set (remaining s) \<or> eof s"
  proof -
    from spec that obtain s1 where
      s1: "readline_loop line sz True s
            = (Return (concat line @ first_line (remaining s)), s1)" "well_formed s1"
          "remaining s1 = drop (length (first_line (remaining s))) (remaining s)" by blast
    obtain s' where "decorated (Return (concat line @ first_line (remaining s)), s1)
                      = (Return (concat line @ first_line (remaining s)), s')"
      "well_formed s' = well_formed s1" "remaining s' = remaining s1"
      by (rule decorated_ReturnE)
    with s1 show ?thesis by auto
  qed
  show "\<exists>line' w s'. decorated (readline_loop line sz True s)
                  = (Suspend w (InReadline line' (sz + len (remaining s))), s')
              \<and> concat line' = concat line @ remaining s \<and> fut (futures s') w = Pending"
    if "\<not> too_long sz s" "newline \<notin> set (remaining s)" "\<not> eof s" "waiter s = None"
  proof -
    from spec that obtain line' w s' where
      "readline_loop line sz True s
        = (Suspend w (InReadline line' (sz + len (remaining s))), s')"
      "concat line' = concat line @ remaining s" "fut (futures s') w = Pending" by blast
    then show ?thesis by auto
  qed
  show "\<exists>e s'. decorated (readline_loop line sz True s) = (Raise (RuntimeError e), s')"
    if "\<not> too_long sz s" "newline \<notin> set (remaining s)" "\<not> eof s" "waiter s \<noteq> None"
  proof -
    from spec that obtain e s' where
      "readline_loop line sz True s = (Raise (RuntimeError e), s')" by blast
    then show ?thesis by auto
  qed
qed

text \<open>
  On a reader whose buffer is in order, that holds no exception and whose limit is
  not negative: a line is the buffered bytes through the first newline, or all of them
  when there is none. \<open>readline()\<close> raises \<open>ValueError('Line is too long')\<close> exactly
  when that line is longer than the limit, which is exactly when more than \<open>limit\<close>
  bytes are buffered and none of the first \<open>limit\<close> is a newline. Otherwise, when a
  newline is buffered it returns the line, which ends with the newline and has no other;
  when none is buffered and EOF was signalled it returns all the buffered bytes, without
  a newline; when none is buffered and EOF was not signalled it collects the bytes and
  suspends, and resumed after more data or EOF it raises the same error when the
  collected bytes and the rest of the line exceed the limit, and else returns the
  collected bytes followed by the rest of the line.
\<close>

lemma readline_call:
  assumes "well_formed s" "exception s = None" "0 \<le> limit s"
  shows "((\<exists>s'. readline s = (Raise (ValueError ''Line is too long''), s')) = too_long 0 s)
       \<and> (too_long 0 s = (limit s < len (remaining s)
                           \<and> newline \<notin> set (take (nat (limit s)) (remaining s))))
       \<and> (\<not> too_long 0 s \<and> newline \<in> set (remaining s) \<longrightarrow>
             (\<exists>s'. readline s = (Return (first_line (remaining s)), s')
                \<and> remaining s' = drop (length (first_line (remaining s))) (remaining s))
             \<and> last (first_line (remaining s)) = newline
             \<and> newline \<notin> set (butlast (first_line (remaining s))))
       \<and> (\<not> too_long 0 s \<and> newline \<notin> set (remaining s) \<and> eof s \<longrightarrow>
             (\<exists>s'. readline s = (Return (remaining s), s') \<and> remaining s' = []))
       \<and> (\<not> too_long 0 s \<and> newline \<notin> set (remaining s) \<and> \<not> eof s \<and> waiter s = None \<longrightarrow>
             (\<exists>line' w s1. readline s = (Suspend w (InReadline line' (len (remaining s))), s1)
                \<and> concat line' = remaining s \<and> fut (futures s1) w = Pending
                \<and> (\<forall>s2 v. well_formed s2 \<and> fut (futures s2) w = Result v \<longrightarrow>
                      (too_long (len (remaining s)) s2 \<longrightarrow>
                         (\<exists>s3. resume (InReadline line' (len (remaining s))) w s2
                                = (Raise (ValueError ''Line is too long''), s3)))
                    \<and> (\<not> too_long (len (remaining s)) s2
                        \<and> (newline \<in> set (remaining s2) \<or> eof s2) \<longrightarrow>
                         (\<exists>s3. resume (InReadline line' (len (remaining s))) w s2
                                = (Return (remaining s @ first_line (remaining s2)), s3))))))"
proof (intro conjI impI)
  note d = decorated_readline_loop [OF assms(1), of 0 "[]"]
  note e = readline_eq_loop [OF assms(2)]
  show "(\<exists>s'. readline s = (Raise (ValueError ''Line is too long''), s')) = too_long 0 s"
  proof
    assume "too_long 0 s"
    from d(1) [OF this] e
    show "\<exists>s'. readline s = (Raise (ValueError ''Line is too long''), s')" by simp
  next
    assume r: "\<exists>s'. readline s = (Raise (ValueError ''Line is too long''), s')"
    show "too_long 0 s"
    proof (rule ccontr)
      assume n: "\<not> too_long 0 s"
      show False
      proof (cases "newline \<in> set (remaining s) \<or> eof s")
        case True
        from d(2) [OF n True] r e show False by auto
      next
        case False
        then have f: "newline \<notin> set (remaining s)" "\<not> eof s" by simp_all
        show False
        proof (cases "waiter s = None")
          case True
          from d(3) [OF n f True] r e show False by auto
        next
          case False
          from d(4) [OF n f False] r e show False by auto
        qed
      qed
    qed
  qed
  show "too_long 0 s = (limit s < len (remaining s)
                           \<and> newline \<notin> set (take (nat (limit s)) (remaining s)))"
    by (rule too_long_iff [OF assms(3)])
  {
    assume a: "\<not> too_long 0 s \<and> newline \<in> set (remaining s)"
    then have "newline \<in> set (remaining s) \<or> eof s" by simp
    from d(2) [OF _ this] a e
    show "\<exists>s'. readline s = (Return (first_line (remaining s)), s')
                \<and> remaining s' = drop (length (first_line (remaining s))) (remaining s)"
      by auto
    from first_line_last [of "remaining s"] a
    show "last (first_line (remaining s)) = newline"
      and "newline \<notin> set (butlast (first_line (remaining s)))" by simp_all
  }
  {
    assume a: "\<not> too_long 0 s \<and> newline \<notin> set (remaining s) \<and> eof s"
    then have "newline \<in> set (remaining s) \<or> eof s" by simp
    from d(2) [OF _ this] a e first_line_no_nl [of "remaining s"]
    show "\<exists>s'. readline s = (Return (remaining s), s') \<and> remaining s' = []"
      by auto
  }
  {
    assume a: "\<not> too_long 0 s \<and> newline \<notin> set (remaining s) \<and> \<not> eof s \<and> waiter s = None"
    let ?sz = "len (remaining s)"
    from d(3) a e obtain line' w s1 where
      s1: "readline s = (Suspend w (InReadline line' ?sz), s1)"
        "concat line' = remaining s" "fut (futures s1) w = Pending" by auto
    have k: "(too_long ?sz s2 \<longrightarrow>
                 (\<exists>s3. resume (InReadline line' ?sz) w s2
                        = (Raise (ValueError ''Line is too long''), s3)))
            \<and> (\<not> too_long ?sz s2 \<and> (newline \<in> set (remaining s2) \<or> eof s2) \<longrightarrow>
                 (\<exists>s3. resume (InReadline line' ?sz) w s2
                        = (Return (remaining s @ first_line (remaining s2)), s3)))"
      if h: "well_formed s2 \<and> fut (futures s2) w = Result v" for s2 v
    proof -
      let ?t = "s2\<lparr>waiter := None\<rparr>"
      have wt: "well_formed ?t" using h waiter_None_same(1) [of s2] by simp
      note dt = decorated_readline_loop [OF wt, of ?sz line']
      have re: "resume (InReadline line' ?sz) w s2
                = decorated (readline_loop line' ?sz True ?t)"
        using h resume_readline_eq_loop by blast
      show ?thesis
      proof (intro conjI impI)
        assume "too_long ?sz s2"
        then have "too_long ?sz ?t" by (simp add: waiter_None_same)
        from dt(1) [OF this] re
        show "\<exists>s3. resume (InReadline line' ?sz) w s2
                        = (Raise (ValueError ''Line is too long''), s3)" by simp
      next
        assume b: "\<not> too_long ?sz s2 \<and> (newline \<in> set (remaining s2) \<or> eof s2)"
        then have "\<not> too_long ?sz ?t" "newline \<in> set (remaining ?t) \<or> eof ?t"
          by (simp_all add: waiter_None_same)
        from dt(2) [OF this] re s1(2)
        show "\<exists>s3. resume (InReadline line' ?sz) w s2
                        = (Return (remaining s @ first_line (remaining s2)), s3)"
          by (auto simp: waiter_None_same)
      qed
    qed
    from s1 k
    show "\<exists>line' w s1. readline s = (Suspend w (InReadline line' ?sz), s1)
                \<and> concat line' = remaining s \<and> fut (futures s1) w = Pending
                \<and> (\<forall>s2 v. well_formed s2 \<and> fut (futures s2) w = Result v \<longrightarrow>
                      (too_long ?sz s2 \<longrightarrow>
                         (\<exists>s3. resume (InReadline line' ?sz) w s2
                                = (Raise (ValueError ''Line is too long''), s3)))
                    \<and> (\<not> too_long ?sz s2 \<and> (newline \<in> set (remaining s2) \<or> eof s2) \<longrightarrow>
                         (\<exists>s3. resume (InReadline line' ?sz) w s2
                                = (Return (remaining s @ first_line (remaining s2)), s3))))"
      by blast
  }
qed

definition two_lines :: stream_reader where
  \<comment> \<open>fed \<open>b'hello\n'\<close>, then \<open>b'world'\<close>, then EOF; the limit is 10\<close>
  "two_lines = reader_of [''hello'' @ [newline], ''world''] 0 True"

definition long_line :: stream_reader where
  \<comment> \<open>twelve bytes without a newline, with the limit 10\<close>
  "long_line = reader_of [''abcdefghijkl''] 0 True"

lemma ex_lines:
  "well_formed two_lines" "exception two_lines = None" "0 \<le> limit two_lines"
  "\<not> too_long 0 two_lines" "newline \<in> set (remaining two_lines)"
  "first_line (remaining two_lines) = ''hello'' @ [newline]"
  "drop (length (''hello'' @ [newline])) (remaining two_lines) = ''world''"
  by code_simp+

lemma ex_long_line:
  "well_formed long_line" "exception long_line = None" "0 \<le> limit long_line"
  "too_long 0 long_line"
  by code_simp+

section \<open>DataQueue\<close>

text \<open>The fields of \<open>FlowControlDataQueue\<close> beyond those of \<open>DataQueue\<close>.\<close>

record q_flow_control =
  q_protocol :: protocol
  q_limit :: int
  q_allow_pause :: bool

text \<open>
  A \<open>DataQueue\<close> of items of type \<open>'a\<close>, each with its declared size.
  \<open>q_flow = None\<close> is an instance of the base class, \<open>q_flow = Some fc\<close> one of
  \<open>FlowControlDataQueue\<close>.
\<close>

record 'a data_queue =
  q_eof :: bool
  q_waiter :: "nat option"
  q_exception :: "exn option"
  q_size :: int
  q_buffer :: "('a \<times> int) list"
  q_futures :: "future list"
  q_flow :: "q_flow_control option"

definition DataQueue_init :: "'a data_queue" where
  "DataQueue_init =
     \<lparr>q_eof = False, q_waiter = None, q_exception = None, q_size = 0, q_buffer = [],
      q_futures = [], q_flow = None\<rparr>"


definition dq_set_exception :: "exn \<Rightarrow> 'a data_queue \<Rightarrow> exn option \<times> 'a data_queue" where
  \<comment> \<open>\<open>DataQueue.set_exception\<close>: the waiter gets the exception unless it is done\<close>
  "dq_set_exception exc q =
     (let q1 = q\<lparr>q_exception := Some exc\<rparr>
      in case q_waiter q1 of
           None \<Rightarrow> (None, q1)
         | Some w \<Rightarrow>
             let q2 = q1\<lparr>q_waiter := None\<rparr>
             in if fut (q_futures q2) w \<noteq> Pending then (None, q2)
                else (case complete (q_futures q2) w (Failed exc) of
                        (r, fs) \<Rightarrow> (r, q2\<lparr>q_futures := fs\<rparr>)))"

definition dq_wake :: "future \<Rightarrow> 'a data_queue \<Rightarrow> exn option \<times> 'a data_queue" where
  \<comment> \<open>\<open>waiter = self._waiter; if waiter is not None: self._waiter = None;
      if not waiter.cancelled(): waiter.set_result(v)\<close>\<close>
  "dq_wake v q =
     (case q_waiter q of
        None \<Rightarrow> (None, q)
      | Some w \<Rightarrow>
          let q1 = q\<lparr>q_waiter := None\<rparr>
          in if fut (q_futures q1) w = Cancelled then (None, q1)
             else (case complete (q_futures q1) w v of (r, fs) \<Rightarrow> (r, q1\<lparr>q_futures := fs\<rparr>)))"

definition dq_feed_data :: "'a \<Rightarrow> int \<Rightarrow> 'a data_queue \<Rightarrow> exn option \<times> 'a data_queue" where
  \<comment> \<open>\<open>DataQueue.feed_data(data, size)\<close>: no test of \<open>self._eof\<close>\<close>
  "dq_feed_data data sz q =
     dq_wake (Result True) (q\<lparr>q_size := q_size q + sz, q_buffer := q_buffer q @ [(data, sz)]\<rparr>)"

definition dq_feed_eof :: "'a data_queue \<Rightarrow> exn option \<times> 'a data_queue" where
  "dq_feed_eof q = dq_wake (Result False) (q\<lparr>q_eof := True\<rparr>)"

definition q_has_live_waiter :: "'a data_queue \<Rightarrow> bool" where
  "q_has_live_waiter q =
     (case q_waiter q of None \<Rightarrow> False | Some w \<Rightarrow> fut (q_futures q) w \<noteq> Cancelled)"

definition fq_feed_data :: "'a \<Rightarrow> int \<Rightarrow> 'a data_queue \<Rightarrow> exn option \<times> 'a data_queue" where
  \<comment> \<open>\<open>FlowControlDataQueue.feed_data\<close>\<close>
  "fq_feed_data data sz q =
     (let has_waiter = q_has_live_waiter q
      in case dq_feed_data data sz q of
           (Some e, q1) \<Rightarrow> (Some e, q1)
         | (None, q1) \<Rightarrow>
             (case q_flow q1 of
                None \<Rightarrow> (None, q1)
              | Some fc \<Rightarrow>
                  if q_allow_pause fc \<and> \<not> reading_paused (q_protocol fc) \<and> \<not> has_waiter
                     \<and> q_size q1 > q_limit fc
                  then (None, q1\<lparr>q_flow := Some (fc\<lparr>q_protocol := try_pause (q_protocol fc)\<rparr>)\<rparr>)
                  else (None, q1)))"

definition q_feed_data :: "'a \<Rightarrow> int \<Rightarrow> 'a data_queue \<Rightarrow> exn option \<times> 'a data_queue" where
  \<comment> \<open>\<open>self.feed_data\<close>, dispatched on the class\<close>
  "q_feed_data data sz q =
     (case q_flow q of None \<Rightarrow> dq_feed_data data sz q | Some _ \<Rightarrow> fq_feed_data data sz q)"

datatype 'a q_outcome = QReturn 'a | QRaise exn | QSuspend nat

definition dq_read_rest :: "'a data_queue \<Rightarrow> 'a q_outcome \<times> 'a data_queue" where
  \<comment> \<open>\<open>DataQueue.read\<close> from \<open>if self._buffer:\<close> on\<close>
  "dq_read_rest q =
     (case q_buffer q of
        (data, sz) # rest \<Rightarrow> (QReturn data, q\<lparr>q_buffer := rest, q_size := q_size q - sz\<rparr>)
      | [] \<Rightarrow>
          (case q_exception q of
             Some e \<Rightarrow> (QRaise e, q)
           | None \<Rightarrow> (QRaise EofStream, q)))"

definition dq_read :: "'a data_queue \<Rightarrow> 'a q_outcome \<times> 'a data_queue" where
  \<comment> \<open>\<open>DataQueue.read\<close>, up to its suspension\<close>
  "dq_read q =
     (if q_buffer q = [] \<and> \<not> q_eof q then
        (case q_exception q of
           Some e \<Rightarrow> (QRaise e, q)
         | None \<Rightarrow>
             if q_waiter q \<noteq> None then (QRaise (AssertionError []), q)
             else
               (let w = length (q_futures q)
                in (QSuspend w, q\<lparr>q_futures := q_futures q @ [Pending], q_waiter := Some w\<rparr>)))
      else dq_read_rest q)"

definition dq_resume :: "nat \<Rightarrow> 'a data_queue \<Rightarrow> 'a q_outcome \<times> 'a data_queue" where
  \<comment> \<open>\<open>DataQueue.read\<close> from its \<open>yield from self._waiter\<close> on: only a cancellation is
      caught, to clear the waiter\<close>
  "dq_resume w q =
     (case fut (q_futures q) w of
        Pending \<Rightarrow> (QSuspend w, q)
      | Result _ \<Rightarrow> dq_read_rest q
      | Failed e \<Rightarrow> (QRaise e, q)
      | Cancelled \<Rightarrow> (QRaise CancelledError, q\<lparr>q_waiter := None\<rparr>))"

definition q_check :: "'a data_queue \<Rightarrow> 'a data_queue" where
  \<comment> \<open>the test at the end of \<open>FlowControlDataQueue.read\<close>\<close>
  "q_check q =
     (case q_flow q of
        None \<Rightarrow> q
      | Some fc \<Rightarrow>
          if reading_paused (q_protocol fc) then
            (if q_size q < q_limit fc
             then q\<lparr>q_flow := Some (fc\<lparr>q_protocol := try_resume (q_protocol fc)\<rparr>)\<rparr>
             else q)
          else
            (if q_size q > q_limit fc
             then q\<lparr>q_flow := Some (fc\<lparr>q_protocol := try_pause (q_protocol fc)\<rparr>)\<rparr>
             else q))"

definition q_checked :: "'a q_outcome \<times> 'a data_queue \<Rightarrow> 'a q_outcome \<times> 'a data_queue" where
  \<comment> \<open>\<open>FlowControlDataQueue.read\<close> around \<open>super().read()\<close>: the test runs when the
      inner read returned\<close>
  "q_checked rq =
     (case q_flow (snd rq) of
        None \<Rightarrow> rq
      | Some _ \<Rightarrow> (case rq of (QReturn x, q) \<Rightarrow> (QReturn x, q_check q) | (r, q) \<Rightarrow> (r, q)))"

definition q_read :: "'a data_queue \<Rightarrow> 'a q_outcome \<times> 'a data_queue" where
  "q_read q = q_checked (dq_read q)"

definition q_resume :: "nat \<Rightarrow> 'a data_queue \<Rightarrow> 'a q_outcome \<times> 'a data_queue" where
  "q_resume w q = q_checked (dq_resume w q)"

section \<open>Misuse\<close>

lemma read_all_loop_busy:
  assumes "readany s = (Raise e, s)"
  shows "read_all_loop [] s = (Raise e, s)"
  using assms by (subst read_all_loop.simps) simp

lemma readany_busy:
  assumes "exception s = None" "buffer s = []" "\<not> eof s" "waiter s = Some w"
  shows "\<exists>m. readany s = (Raise (RuntimeError m), s)"
  using assms by (simp add: readany_def sr_readany_def wait_start_def)

lemma read_busy:
  assumes "exception s = None" "buffer s = []" "\<not> eof s" "waiter s = Some w" "n \<noteq> 0"
  shows "\<exists>m. read n s = (Raise (RuntimeError m), s)"
proof (cases "n < 0")
  case True
  from readany_busy [OF assms(1-4)] obtain m where "readany s = (Raise (RuntimeError m), s)"
    by blast
  from read_all_loop_busy [OF this] True assms show ?thesis
    by (simp add: read_def sr_read_def)
next
  case False
  with assms show ?thesis by (simp add: read_def sr_read_def wait_start_def)
qed

lemma readline_busy:
  assumes "exception s = None" "buffer s = []" "\<not> eof s" "waiter s = Some w"
  shows "\<exists>m. readline s = (Raise (RuntimeError m), s)"
  using assms by (simp add: readline_def sr_readline_def wait_start_def)

lemma readexactly_busy:
  assumes "exception s = None" "buffer s = []" "\<not> eof s" "waiter s = Some w" "0 < n"
  shows "\<exists>m. readexactly n s = (Raise (RuntimeError m), s)"
proof -
  from read_busy [OF assms(1-4), of n] assms(5) obtain m where
    "read n s = (Raise (RuntimeError m), s)" by auto
  then show ?thesis using assms by (simp add: readexactly_def sr_readexactly_def)
qed

lemma feed_data_after_eof:
  assumes "eof s"
  shows "feed_data d s = (Some (AssertionError ''feed_data after feed_eof''), s)"
  using assms
  by (simp add: feed_data_def fc_feed_data_def sr_feed_data_def split: option.splits)

lemma q_read_busy:
  assumes "q_buffer q = []" "\<not> q_eof q" "q_exception q = None" "q_waiter q = Some w"
  shows "q_read q = (QRaise (AssertionError []), q)"
  using assms by (simp add: q_read_def dq_read_def q_checked_def split: option.splits)

lemma q_feed_data_after_eof:
  assumes "q_eof q" "q_waiter q = None"
  shows "\<exists>q'. q_feed_data x sz q = (None, q') \<and> q_buffer q' = q_buffer q @ [(x, sz)]
           \<and> q_size q' = q_size q + sz \<and> q_eof q'"
  using assms
  by (auto simp: q_feed_data_def fq_feed_data_def dq_feed_data_def dq_wake_def Let_def
           split: option.splits)

text \<open>
  C4, as the code has it. A read that has to suspend (nothing buffered, no EOF, no stored
  exception) while a waiter is pending raises at once and leaves the stream, and with it
  the pending waiter and its future, as they were: it raises \<open>RuntimeError\<close> from
  \<open>StreamReader\<close>'s \<open>readany\<close>, \<open>read(n)\<close> for \<open>n \<noteq> 0\<close>, \<open>readline\<close> and
  \<open>readexactly(n)\<close> for \<open>n > 0\<close>, \<open>AssertionError\<close> from \<open>DataQueue.read\<close>.
  \<open>StreamReader.feed_data\<close> after \<open>feed_eof\<close> raises \<open>AssertionError\<close> and changes
  nothing. \<open>DataQueue.feed_data\<close> does not test for EOF: after \<open>feed_eof\<close> it appends
  the item and returns.
\<close>

theorem misuse_is_refused:
  "(exception s = None \<and> buffer s = [] \<and> \<not> eof s \<and> waiter s = Some w \<longrightarrow>
      (\<exists>m. readany s = (Raise (RuntimeError m), s))
    \<and> (n \<noteq> 0 \<longrightarrow> (\<exists>m. read n s = (Raise (RuntimeError m), s)))
    \<and> (\<exists>m. readline s = (Raise (RuntimeError m), s))
    \<and> (0 < n \<longrightarrow> (\<exists>m. readexactly n s = (Raise (RuntimeError m), s))))
 \<and> (q_buffer q = [] \<and> \<not> q_eof q \<and> q_exception q = None \<and> q_waiter q = Some v \<longrightarrow>
      (\<exists>m. q_read q = (QRaise (AssertionError m), q)))
 \<and> (eof s \<longrightarrow> (\<exists>m. feed_data d s = (Some (AssertionError m), s)))
 \<and> (q_eof q \<and> q_waiter q = None \<longrightarrow>
      (\<exists>q'. q_feed_data x sz q = (None, q') \<and> q_buffer q' = q_buffer q @ [(x, sz)]))"
proof (intro conjI impI)
  assume a: "exception s = None \<and> buffer s = [] \<and> \<not> eof s \<and> waiter s = Some w"
  then have h: "exception s = None" "buffer s = []" "\<not> eof s" "waiter s = Some w"
    by simp_all
  from readany_busy [OF h] show "\<exists>m. readany s = (Raise (RuntimeError m), s)" .
  from readline_busy [OF h] show "\<exists>m. readline s = (Raise (RuntimeError m), s)" .
  {
    assume "n \<noteq> 0"
    from read_busy [OF h this] show "\<exists>m. read n s = (Raise (RuntimeError m), s)" .
  }
  {
    assume "0 < n"
    from readexactly_busy [OF h this]
    show "\<exists>m. readexactly n s = (Raise (RuntimeError m), s)" .
  }
next
  assume "q_buffer q = [] \<and> \<not> q_eof q \<and> q_exception q = None \<and> q_waiter q = Some v"
  then show "\<exists>m. q_read q = (QRaise (AssertionError m), q)"
    using q_read_busy [of q v] by auto
next
  assume "eof s"
  from feed_data_after_eof [OF this, of d]
  show "\<exists>m. feed_data d s = (Some (AssertionError m), s)" by auto
next
  assume "q_eof q \<and> q_waiter q = None"
  then show "\<exists>q'. q_feed_data x sz q = (None, q') \<and> q_buffer q' = q_buffer q @ [(x, sz)]"
    using q_feed_data_after_eof [of q x sz] by auto
qed

definition waiting_reader :: stream_reader where
  \<comment> \<open>an empty reader on which one read is suspended\<close>
  "waiting_reader = snd (readany (StreamReader_init 10))"

definition closed_reader :: stream_reader where
  "closed_reader = snd (feed_eof (StreamReader_init 10))"

definition waiting_queue :: "nat data_queue" where
  "waiting_queue = snd (q_read DataQueue_init)"

definition closed_queue :: "nat data_queue" where
  "closed_queue = snd (dq_feed_eof DataQueue_init)"

lemma ex_misuse:
  "exception waiting_reader = None" "buffer waiting_reader = []" "\<not> eof waiting_reader"
  "waiter waiting_reader = Some 0"
  "q_buffer waiting_queue = []" "\<not> q_eof waiting_queue" "q_exception waiting_queue = None"
  "q_waiter waiting_queue = Some 0"
  "eof closed_reader" "q_eof closed_queue" "q_waiter closed_queue = None"
  "q_buffer closed_queue = []"
  by code_simp+

theorem misuse_is_refused_witness:
  "exception waiting_reader = None \<and> buffer waiting_reader = [] \<and> \<not> eof waiting_reader
   \<and> waiter waiting_reader = Some 0
   \<and> (\<exists>m. readany waiting_reader = (Raise (RuntimeError m), waiting_reader))
   \<and> (\<exists>m. readline waiting_reader = (Raise (RuntimeError m), waiting_reader))
   \<and> (\<exists>m. read 4 waiting_reader = (Raise (RuntimeError m), waiting_reader))
   \<and> (\<exists>m. readexactly 4 waiting_reader = (Raise (RuntimeError m), waiting_reader))
   \<and> q_buffer waiting_queue = [] \<and> \<not> q_eof waiting_queue
   \<and> q_exception waiting_queue = None \<and> q_waiter waiting_queue = Some 0
   \<and> (\<exists>m. q_read waiting_queue = (QRaise (AssertionError m), waiting_queue))
   \<and> eof closed_reader
   \<and> (\<exists>m. feed_data ''x'' closed_reader = (Some (AssertionError m), closed_reader))
   \<and> q_eof closed_queue \<and> q_waiter closed_queue = None
   \<and> (\<exists>q'. q_feed_data 7 1 closed_queue = (None, q') \<and> q_buffer q' = [(7, 1)])"
proof -
  have n: "(4::int) \<noteq> 0" "(0::int) < 4" by simp_all
  from misuse_is_refused [of waiting_reader 0 4 waiting_queue 0 "''x''" 7 1]
    misuse_is_refused [of closed_reader 0 4 closed_queue 0 "''x''" 7 1]
    ex_misuse n
  show ?thesis by simp
qed

text \<open>
  The claim as stated fails on \<open>DataQueue\<close>: \<open>feed_data\<close> after \<open>feed_eof\<close> returns
  and the item is in the queue.
\<close>

theorem queue_feed_after_eof_counterexample:
  "q_eof closed_queue
   \<and> fst (q_feed_data 7 1 closed_queue) = None
   \<and> q_buffer (snd (q_feed_data 7 1 closed_queue)) = [(7, 1)]"
  by code_simp

section \<open>Stored exceptions\<close>

lemma set_exception_ok:
  assumes "waiters_ok s"
  shows "\<exists>s1. set_exception e s = (None, s1) \<and> exception s1 = Some e \<and> waiter s1 = None
           \<and> (\<forall>w. waiter s = Some w \<and> fut (futures s) w = Pending \<longrightarrow>
                  fut (futures s1) w = Failed e)"
proof -
  let ?s0 = "s\<lparr>exception := Some e\<rparr>"
  have w0: "waiters_ok ?s0" using assms by (simp add: waiters_ok_def)
  from wake_waiter_ok [OF w0, of "Failed e"] obtain s1 where
    s1: "wake_waiter (Failed e) ?s0 = (None, s1)" "exception s1 = Some e" "waiter s1 = None"
      "eof_waiter s1 = eof_waiter s" "waiters_ok s1" by auto
  from wake_eof_waiter_ok [OF s1(5), of "Failed e"] obtain s2 where
    s2: "wake_eof_waiter (Failed e) s1 = (None, s2)" "exception s2 = exception s1"
      "waiter s2 = waiter s1" by blast
  have f: "fut (futures s2) w = Failed e"
    if h: "waiter s = Some w" "fut (futures s) w = Pending" for w
  proof -
    have wl: "w < length (futures s)" "eof_waiter s \<noteq> Some w"
      using assms h by (auto simp: waiters_ok_def live_def)
    have 1: "futures s1 = (futures s)[w := Failed e]"
      using s1(1) h by (auto simp: wake_waiter_def complete_def Let_def)
    have "fut (futures s2) w = fut (futures s1) w"
      using s2(1) s1(4) wl 1
      by (auto simp: wake_eof_waiter_def complete_def fut_def Let_def nth_list_update
               split: option.splits if_splits)
    then show ?thesis using 1 wl by (simp add: fut_def)
  qed
  from s1 s2 f show ?thesis by (auto simp: set_exception_def)
qed

lemma resume_Failed:
  "fut (futures s) w = Failed e \<Longrightarrow> resume k w s = (Raise e, s\<lparr>waiter := None\<rparr>)"
  by (simp add: resume_def wait_resume_def)

lemma reads_raise_stored:
  assumes "exception s = Some e"
  shows "read n s = (Raise e, s)" "readany s = (Raise e, s)" "readline s = (Raise e, s)"
    "readexactly n s = (Raise e, s)" "read_nowait n s = (Raise e, s)"
  using assms
  by (simp_all add: read_def sr_read_def readany_def sr_readany_def readline_def
        sr_readline_def readexactly_def sr_readexactly_def read_nowait_def sr_read_nowait_def)

lemma wake_waiter_exception [simp]: "exception (snd (wake_waiter v s)) = exception s"
  by (auto simp: wake_waiter_def Let_def split: option.splits prod.splits)

lemma wake_eof_waiter_exception [simp]: "exception (snd (wake_eof_waiter v s)) = exception s"
  by (auto simp: wake_eof_waiter_def Let_def split: option.splits prod.splits)

lemma exception_kept:
  "exception (snd (feed_data d s)) = exception s"
  "exception (snd (feed_eof s)) = exception s"
  "exception (snd (unread_data d s)) = exception s"
proof -
  have 1: "exception (snd (sr_feed_data d s)) = exception s"
    by (simp add: sr_feed_data_def)
  then show "exception (snd (feed_data d s)) = exception s"
    by (auto simp: feed_data_def fc_feed_data_def Let_def split: option.splits prod.splits)
  obtain r s1 where w: "wake_waiter (Result True) (s\<lparr>eof := True\<rparr>) = (r, s1)"
    by (cases "wake_waiter (Result True) (s\<lparr>eof := True\<rparr>)") auto
  have e1: "exception s1 = exception s"
    using wake_waiter_exception [of "Result True" "s\<lparr>eof := True\<rparr>"] w by simp
  show "exception (snd (feed_eof s)) = exception s"
    using w e1 wake_eof_waiter_exception [of "Result True" s1]
    by (cases r) (simp_all add: feed_eof_def)
  show "exception (snd (unread_data d s)) = exception s"
    by (simp add: unread_data_def split: list.splits)
qed

lemma dq_set_exception_ok:
  "\<exists>q1. dq_set_exception e q = (None, q1) \<and> q_exception q1 = Some e
         \<and> q_buffer q1 = q_buffer q \<and> q_eof q1 = q_eof q
         \<and> (\<forall>w. q_waiter q = Some w \<and> w < length (q_futures q)
                  \<and> q_futures q ! w = Pending \<longrightarrow>
                fut (q_futures q1) w = Failed e)"
  by (cases "q_waiter q")
     (auto simp: dq_set_exception_def Let_def complete_def fut_def)

lemma q_resume_Failed:
  "fut (q_futures q) w = Failed e \<Longrightarrow> q_resume w q = (QRaise e, q)"
  by (simp add: q_resume_def dq_resume_def q_checked_def split: option.splits)

lemma q_read_stored:
  assumes "q_exception q = Some e"
  shows "q_buffer q = [] \<Longrightarrow> q_read q = (QRaise e, q)"
    and "q_buffer q = (x, sz) # rest \<Longrightarrow>
           \<exists>q'. q_read q = (QReturn x, q') \<and> q_buffer q' = rest \<and> q_exception q' = Some e"
  using assms
  by (auto simp: q_read_def dq_read_def dq_read_rest_def q_checked_def q_check_def
           split: option.splits)

lemma q_exception_kept:
  "q_exception (snd (q_feed_data x sz q)) = q_exception q"
  "q_exception (snd (dq_feed_eof q)) = q_exception q"
proof -
  have w: "q_exception (snd (dq_wake v q')) = q_exception q'" for v and q' :: "'a data_queue"
    by (auto simp: dq_wake_def Let_def split: option.splits prod.splits)
  from w show "q_exception (snd (dq_feed_eof q)) = q_exception q"
    by (simp add: dq_feed_eof_def)
  have d: "q_exception (snd (dq_feed_data x sz q)) = q_exception q"
    using w by (simp add: dq_feed_data_def)
  obtain r q1 where f: "dq_feed_data x sz q = (r, q1)"
    by (cases "dq_feed_data x sz q") auto
  with d have "q_exception q1 = q_exception q" by simp
  with f show "q_exception (snd (q_feed_data x sz q)) = q_exception q"
    by (cases r) (auto simp: q_feed_data_def fq_feed_data_def Let_def split: option.splits)
qed

text \<open>
  C5, as the code has it. \<open>set_exception(e)\<close> on a reader whose waiters are in order
  returns, stores \<open>e\<close> and gives \<open>e\<close> to the future of a pending waiter, so that
  the read suspended on it raises \<open>e\<close> when it is resumed; while \<open>e\<close> is stored,
  \<open>read\<close>, \<open>readany\<close>, \<open>readline\<close>, \<open>readexactly\<close> and \<open>read_nowait\<close> raise \<open>e\<close>
  and change nothing, and \<open>feed_data\<close>, \<open>feed_eof\<close> and \<open>unread_data\<close> leave the
  stored exception as it is. On a \<open>DataQueue\<close>, \<open>set_exception(e)\<close> stores \<open>e\<close> and
  gives it to a pending waiter in the same way, \<open>feed_data\<close> and \<open>feed_eof\<close> keep it,
  and \<open>read\<close> raises \<open>e\<close> when the buffer is empty; an item that is still buffered is
  returned first.
\<close>

theorem stored_exception_is_replayed:
  "(waiters_ok s \<longrightarrow>
      (\<exists>s1. set_exception e s = (None, s1) \<and> exception s1 = Some e
         \<and> (\<forall>w. waiter s = Some w \<and> fut (futures s) w = Pending \<longrightarrow>
                (\<forall>k. \<exists>s2. resume k w s1 = (Raise e, s2) \<and> exception s2 = Some e))))
 \<and> (exception s = Some e \<longrightarrow>
      read n s = (Raise e, s) \<and> readany s = (Raise e, s) \<and> readline s = (Raise e, s)
      \<and> readexactly n s = (Raise e, s) \<and> read_nowait n s = (Raise e, s)
      \<and> exception (snd (feed_data d s)) = Some e
      \<and> exception (snd (feed_eof s)) = Some e
      \<and> exception (snd (unread_data d s)) = Some e)
 \<and> (\<exists>q1. dq_set_exception e q = (None, q1) \<and> q_exception q1 = Some e
       \<and> q_buffer q1 = q_buffer q
       \<and> (\<forall>w. q_waiter q = Some w \<and> w < length (q_futures q)
                \<and> q_futures q ! w = Pending \<longrightarrow>
              q_resume w q1 = (QRaise e, q1)))
 \<and> (q_exception q = Some e \<longrightarrow>
      (q_buffer q = [] \<longrightarrow> q_read q = (QRaise e, q))
      \<and> (\<forall>x sz rest. q_buffer q = (x, sz) # rest \<longrightarrow>
            (\<exists>q'. q_read q = (QReturn x, q') \<and> q_buffer q' = rest
                 \<and> q_exception q' = Some e))
      \<and> q_exception (snd (q_feed_data y m q)) = Some e
      \<and> q_exception (snd (dq_feed_eof q)) = Some e)"
proof (intro conjI impI)
  assume "waiters_ok s"
  from set_exception_ok [OF this, of e] obtain s1 where
    s1: "set_exception e s = (None, s1)" "exception s1 = Some e"
      "\<forall>w. waiter s = Some w \<and> fut (futures s) w = Pending \<longrightarrow> fut (futures s1) w = Failed e"
    by blast
  have "\<exists>s2. resume k w s1 = (Raise e, s2) \<and> exception s2 = Some e"
    if "waiter s = Some w \<and> fut (futures s) w = Pending" for w k
    using s1(2,3) that resume_Failed [of s1 w e k] by auto
  with s1 show "\<exists>s1. set_exception e s = (None, s1) \<and> exception s1 = Some e
         \<and> (\<forall>w. waiter s = Some w \<and> fut (futures s) w = Pending \<longrightarrow>
                (\<forall>k. \<exists>s2. resume k w s1 = (Raise e, s2) \<and> exception s2 = Some e))"
    by blast
next
  assume a: "exception s = Some e"
  from reads_raise_stored [OF a]
  show "read n s = (Raise e, s)" "readany s = (Raise e, s)" "readline s = (Raise e, s)"
    "readexactly n s = (Raise e, s)" "read_nowait n s = (Raise e, s)" by simp_all
  from a show "exception (snd (feed_data d s)) = Some e"
    "exception (snd (feed_eof s)) = Some e" "exception (snd (unread_data d s)) = Some e"
    by (simp_all add: exception_kept)
next
  from dq_set_exception_ok [of e q] obtain q1 where
    q1: "dq_set_exception e q = (None, q1)" "q_exception q1 = Some e"
      "q_buffer q1 = q_buffer q"
      "\<forall>w. q_waiter q = Some w \<and> w < length (q_futures q) \<and> q_futures q ! w = Pending
           \<longrightarrow> fut (q_futures q1) w = Failed e" by blast
  then show "\<exists>q1. dq_set_exception e q = (None, q1) \<and> q_exception q1 = Some e
       \<and> q_buffer q1 = q_buffer q
       \<and> (\<forall>w. q_waiter q = Some w \<and> w < length (q_futures q)
                \<and> q_futures q ! w = Pending \<longrightarrow>
              q_resume w q1 = (QRaise e, q1))"
    using q_resume_Failed [of q1 _ e] by blast
next
  assume a: "q_exception q = Some e"
  show "q_read q = (QRaise e, q)" if "q_buffer q = []"
    using q_read_stored(1) [OF a that] .
  show "\<forall>x sz rest. q_buffer q = (x, sz) # rest \<longrightarrow>
            (\<exists>q'. q_read q = (QReturn x, q') \<and> q_buffer q' = rest
                 \<and> q_exception q' = Some e)"
    using q_read_stored(2) [OF a] by blast
  from a show "q_exception (snd (q_feed_data y m q)) = Some e"
    "q_exception (snd (dq_feed_eof q)) = Some e"
    by (simp_all add: q_exception_kept)
qed

definition failed_reader :: stream_reader where
  \<comment> \<open>the reader with one suspended read, after \<open>set_exception\<close>\<close>
  "failed_reader = snd (set_exception (TransportError 1) waiting_reader)"

definition failed_queue :: "nat data_queue" where
  \<comment> \<open>a queue that was fed one item before \<open>set_exception\<close>\<close>
  "failed_queue = snd (dq_set_exception (TransportError 1) (snd (q_feed_data 7 1 DataQueue_init)))"

lemma ex_failed:
  "waiters_ok waiting_reader" "fut (futures waiting_reader) 0 = Pending"
  "exception failed_reader = Some (TransportError 1)"
  "q_exception failed_queue = Some (TransportError 1)"
  "q_buffer failed_queue = [(7, 1)]"
  by code_simp+

theorem stored_exception_is_replayed_witness:
  "waiters_ok waiting_reader \<and> waiter waiting_reader = Some 0
   \<and> fut (futures waiting_reader) 0 = Pending
   \<and> (\<exists>s1. set_exception (TransportError 1) waiting_reader = (None, s1)
          \<and> exception s1 = Some (TransportError 1)
          \<and> (\<exists>s2. resume InReadany 0 s1 = (Raise (TransportError 1), s2)))
   \<and> exception failed_reader = Some (TransportError 1)
   \<and> readline failed_reader = (Raise (TransportError 1), failed_reader)
   \<and> read_nowait 5 failed_reader = (Raise (TransportError 1), failed_reader)
   \<and> exception (snd (feed_data ''x'' failed_reader)) = Some (TransportError 1)
   \<and> q_exception failed_queue = Some (TransportError 1)
   \<and> q_buffer failed_queue = [(7, 1)]
   \<and> (\<exists>q'. q_read failed_queue = (QReturn 7, q') \<and> q_buffer q' = []
          \<and> q_exception q' = Some (TransportError 1))"
proof -
  from stored_exception_is_replayed
         [of waiting_reader "TransportError 1" 5 "''x''" failed_queue 7 1]
    ex_failed(1,2) ex_misuse(4)
  have 1: "\<exists>s1. set_exception (TransportError 1) waiting_reader = (None, s1)
          \<and> exception s1 = Some (TransportError 1)
          \<and> (\<exists>s2. resume InReadany 0 s1 = (Raise (TransportError 1), s2))"
    by blast
  from stored_exception_is_replayed
         [of failed_reader "TransportError 1" 5 "''x''" failed_queue 7 1]
    ex_failed(3,4,5)
  have 2: "readline failed_reader = (Raise (TransportError 1), failed_reader)
     \<and> read_nowait 5 failed_reader = (Raise (TransportError 1), failed_reader)
     \<and> exception (snd (feed_data ''x'' failed_reader)) = Some (TransportError 1)
     \<and> (\<exists>q'. q_read failed_queue = (QReturn 7, q') \<and> q_buffer q' = []
          \<and> q_exception q' = Some (TransportError 1))"
    by blast
  from 1 2 ex_failed ex_misuse(4) show ?thesis by blast
qed

text \<open>
  The claim as stated fails on \<open>DataQueue\<close>: with an exception stored and an item
  buffered, \<open>read\<close> returns the item.
\<close>

theorem queue_read_after_exception_counterexample:
  "q_exception failed_queue = Some (TransportError 1)
   \<and> fst (q_read failed_queue) = QReturn 7"
  by code_simp

section \<open>StreamWriter\<close>

text \<open>
  What a callback is called with: \<open>self.transport\<close> or the writer \<open>self\<close>. The writer
  keeps a log of the callbacks it has called, oldest first; what a callback does when it
  runs is outside the writer.
\<close>

datatype cb_arg = TheTransport | TheWriter

record 'cb stream_writer =
  available :: bool
  waiters :: "'cb list"
  called :: "('cb \<times> cb_arg) list"

definition StreamWriter_init :: "'cb stream_writer" where
  "StreamWriter_init = \<lparr>available = True, waiters = [], called = []\<rparr>"

definition acquire :: "'cb \<Rightarrow> 'cb stream_writer \<Rightarrow> 'cb stream_writer" where
  "acquire cb w =
     (if available w then w\<lparr>available := False, called := called w @ [(cb, TheTransport)]\<rparr>
      else w\<lparr>waiters := waiters w @ [cb]\<rparr>)"

definition release :: "'cb stream_writer \<Rightarrow> 'cb stream_writer" where
  "release w =
     (case waiters w of
        cb # rest \<Rightarrow>
          w\<lparr>available := False, waiters := rest, called := called w @ [(cb, TheWriter)]\<rparr>
      | [] \<Rightarrow> w\<lparr>available := True\<rparr>)"

text \<open>
  The lease is handed on in the order of the requests: \<open>acquire\<close> on a free writer
  calls the callback at once, on a held writer it queues it behind the others, and
  \<open>release\<close> calls the oldest queued callback and no other, or frees the writer.
\<close>

lemma acquire_release_order:
  "available w \<Longrightarrow>
     acquire cb w = w\<lparr>available := False, called := called w @ [(cb, TheTransport)]\<rparr>"
  "\<not> available w \<Longrightarrow>
     acquire cb w = w\<lparr>waiters := waiters w @ [cb]\<rparr>"
  "waiters w = cb # rest \<Longrightarrow>
     map fst (called (release w)) = map fst (called w) @ [cb]
     \<and> waiters (release w) = rest \<and> \<not> available (release w)"
  "waiters w = [] \<Longrightarrow> release w = w\<lparr>available := True\<rparr>"
  by (simp_all add: acquire_def release_def)

text \<open>
  C3, at the input where the code leaves the claim: a first \<open>acquire(a)\<close> calls \<open>a\<close>
  with the transport, a second \<open>acquire(b)\<close> queues \<open>b\<close>, and \<open>release()\<close> calls
  \<open>b\<close> with the writer itself, not with the transport.
\<close>

theorem release_passes_the_writer:
  "called (acquire (2::nat) (acquire 1 StreamWriter_init)) = [(1, TheTransport)]
   \<and> waiters (acquire (2::nat) (acquire 1 StreamWriter_init)) = [2]
   \<and> called (release (acquire (2::nat) (acquire 1 StreamWriter_init)))
       = [(1, TheTransport), (2, TheWriter)]"
  by (simp add: acquire_def release_def StreamWriter_init_def)

section \<open>Flow control\<close>













































section \<open>Payloads and their registry\<close>

text \<open>
  The Python objects that reach the registry: an object carries the classes it is an
  instance of (the method resolution order of its type, most specific first) and its
  state. The fields of a \<open>Payload\<close> instance are one kind of state.
\<close>

datatype cls =
    C_bytes | C_bytearray | C_memoryview | C_str
  | C_StringIO | C_TextIOBase | C_BytesIO | C_BufferedReader | C_BufferedRandom | C_IOBase
  | C_asyncio_StreamReader | C_StreamReader | C_DataQueue
  | C_Payload | C_BytesPayload | C_StringPayload | C_IOBasePayload | C_TextIOPayload
  | C_StringIOPayload | C_BytesIOPayload | C_BufferedReaderPayload
  | C_StreamReaderPayload | C_DataQueuePayload
  | C_other string

type_synonym headers = "(string \<times> string) list"

datatype pyobj = PyObj (mro: "cls list") (state: pystate)
and pystate =
    Bytes bytes
  | Text string
  | Handle nat
  | Fields (p_value: pyobj) (p_encoding: "string option") (p_filename: "string option")
      (p_headers: "headers option") (p_content_type: "string option")
      (p_size: "int option")

definition isinstance :: "pyobj \<Rightarrow> cls list \<Rightarrow> bool" where
  \<comment> \<open>\<open>isinstance(data, type)\<close>, \<open>type\<close> a class (a one-element list) or a tuple of classes\<close>
  "isinstance data types = list_ex (\<lambda>c. c \<in> set (mro data)) types"

fun py_len :: "pyobj \<Rightarrow> exn + int" where
  "py_len (PyObj m (Bytes b)) = Inr (len b)"
| "py_len (PyObj m (Text t)) = Inr (len t)"
| "py_len (PyObj m st) = Inl TypeError"

text \<open>
  Keyword arguments: a keyword is absent or given, and a given one may be \<open>None\<close>. The
  model covers the calls whose keywords are among \<open>headers\<close>, \<open>content_type\<close>,
  \<open>filename\<close> and \<open>encoding\<close>, without further positional arguments.
\<close>

datatype 'a arg = Absent | Given 'a

record kwargs =
  kw_headers :: "headers option arg"
  kw_content_type :: "string option arg"
  kw_filename :: "string option arg"
  kw_encoding :: "string option arg"

definition no_kwargs :: kwargs where
  "no_kwargs = \<lparr>kw_headers = Absent, kw_content_type = Absent, kw_filename = Absent,
                 kw_encoding = Absent\<rparr>"

fun default :: "'a \<Rightarrow> 'a arg \<Rightarrow> 'a" where
  "default d Absent = d"
| "default d (Given x) = x"

text \<open>
  What \<open>payload.py\<close> imports from modules that are not part of the sources at hand
  (\<open>hdrs\<close>, \<open>helpers\<close>, \<open>multidict\<close>, \<open>cgi\<close>) and the methods of the values it is given
  are parameters.
\<close>

record helpers =
  CONTENT_TYPE :: string
  CONTENT_DISPOSITION :: string
  parse_mimetype :: "string option \<Rightarrow> exn + (string \<times> string \<times> string \<times> (string \<times> string) list)"
  content_disposition_header :: "string \<Rightarrow> bool \<Rightarrow> (string \<times> string) list \<Rightarrow> string"
  guess_filename :: "pyobj \<Rightarrow> string option"
  parse_header :: "string option \<Rightarrow> exn + (string \<times> (string \<times> string) list)"
  encode :: "pyobj \<Rightarrow> string \<Rightarrow> exn + pyobj"
  headers_get :: "string \<Rightarrow> headers \<Rightarrow> string option"
  headers_set :: "string \<Rightarrow> string \<Rightarrow> headers \<Rightarrow> headers"

subsection \<open>The payload classes\<close>

definition Payload_init :: "helpers \<Rightarrow> cls list \<Rightarrow> pyobj \<Rightarrow> kwargs \<Rightarrow> pyobj" where
  \<comment> \<open>\<open>Payload.__init__\<close>, on a new instance of the class whose resolution order is \<open>m\<close>\<close>
  "Payload_init h m val kw =
     (let hs = default None (kw_headers kw);
          content_type = kw_content_type kw;
          content_type1 =
            (case hs of
               None \<Rightarrow> content_type
             | Some hdrs \<Rightarrow>
                 if content_type = Absent \<and> headers_get h (CONTENT_TYPE h) hdrs \<noteq> None
                 then Given (headers_get h (CONTENT_TYPE h) hdrs) else content_type)
      in PyObj m (Fields val (default None (kw_encoding kw)) (default None (kw_filename kw))
                    hs (default None content_type1) None))"

fun set_size :: "int option \<Rightarrow> pyobj \<Rightarrow> pyobj" where
  "set_size n (PyObj m (Fields v e f hs ct sz)) = PyObj m (Fields v e f hs ct n)"
| "set_size n obj = obj"

fun set_headers :: "headers option \<Rightarrow> pyobj \<Rightarrow> pyobj" where
  "set_headers hs (PyObj m (Fields v e f old ct sz)) = PyObj m (Fields v e f hs ct sz)"
| "set_headers hs obj = obj"

definition set_content_disposition ::
    "helpers \<Rightarrow> string \<Rightarrow> bool \<Rightarrow> (string \<times> string) list \<Rightarrow> pyobj \<Rightarrow> pyobj" where
  "set_content_disposition h disptype quote_fields params self =
     (let hs = (case p_headers (state self) of None \<Rightarrow> [] | Some hdrs \<Rightarrow> hdrs)
      in set_headers
           (Some (headers_set h (CONTENT_DISPOSITION h)
                    (content_disposition_header h disptype quote_fields params) hs))
           self)"

definition BytesPayload_init :: "helpers \<Rightarrow> cls list \<Rightarrow> pyobj \<Rightarrow> kwargs \<Rightarrow> exn + pyobj" where
  "BytesPayload_init h m val kw =
     (if \<not> isinstance val [C_bytes, C_bytearray, C_memoryview]
      then Inl (AssertionError ''value argument must be byte-ish'')
      else
        let kw1 = (if kw_content_type kw = Absent
                   then kw\<lparr>kw_content_type := Given (Some ''application/octet-stream'')\<rparr>
                   else kw);
            self = Payload_init h m val kw1
        in case py_len val of
             Inl e \<Rightarrow> Inl e
           | Inr n \<Rightarrow> Inr (set_size (Some n) self))"

definition StringPayload_init :: "helpers \<Rightarrow> cls list \<Rightarrow> pyobj \<Rightarrow> kwargs \<Rightarrow> exn + pyobj" where
  "StringPayload_init h m val kw =
     (let content_type = default (Some ''text/plain; charset=utf-8'') (kw_content_type kw)
      in case parse_mimetype h content_type of
           Inl e \<Rightarrow> Inl e
         | Inr (mtype, stype, suffix, params) \<Rightarrow>
             let charset = (case map_of params ''charset'' of
                              None \<Rightarrow> ''utf-8'' | Some c \<Rightarrow> c);
                 kw1 = kw\<lparr>kw_encoding := Given (Some charset)\<rparr>
             in case encode h val charset of
                  Inl e \<Rightarrow> Inl e
                | Inr encoded \<Rightarrow>
                    BytesPayload_init h m encoded
                      (kw1\<lparr>kw_content_type := Given content_type\<rparr>))"

definition IOBasePayload_init :: "helpers \<Rightarrow> cls list \<Rightarrow> pyobj \<Rightarrow> kwargs \<Rightarrow> exn + pyobj" where
  "IOBasePayload_init h m val kw =
     (let kw1 = (if kw_filename kw = Absent
                 then kw\<lparr>kw_filename := Given (guess_filename h val)\<rparr> else kw);
          self = Payload_init h m val kw1
      in case p_filename (state self) of
           None \<Rightarrow> Inr self
         | Some name \<Rightarrow>
             Inr (set_content_disposition h ''attachment'' True [(''filename'', name)] self))"

fun dict_set :: "'k \<Rightarrow> 'v \<Rightarrow> ('k \<times> 'v) list \<Rightarrow> ('k \<times> 'v) list" where
  \<comment> \<open>\<open>d[k] = v\<close> on a dict, its items in insertion order\<close>
  "dict_set k v [] = [(k, v)]"
| "dict_set k v ((k', v') # d) = (if k' = k then (k, v) # d else (k', v') # dict_set k v d)"

fun join :: "string \<Rightarrow> string list \<Rightarrow> string" where
  "join sep [] = []"
| "join sep [x] = x"
| "join sep (x # y # ys) = x @ sep @ join sep (y # ys)"

definition TextIOPayload_init :: "helpers \<Rightarrow> cls list \<Rightarrow> pyobj \<Rightarrow> kwargs \<Rightarrow> exn + pyobj" where
  "TextIOPayload_init h m val kw =
     (let content_type = default (Some ''text/plain; charset=utf-8'') (kw_content_type kw)
      in case default None (kw_encoding kw) of
           None \<Rightarrow>
             (case parse_mimetype h content_type of
                Inl e \<Rightarrow> Inl e
              | Inr (mtype, stype, suffix, params) \<Rightarrow>
                  let encoding = (case map_of params ''charset'' of
                                    None \<Rightarrow> ''utf-8'' | Some c \<Rightarrow> c)
                  in IOBasePayload_init h m val
                       (kw\<lparr>kw_content_type := Given content_type,
                           kw_encoding := Given (Some encoding)\<rparr>))
         | Some encoding \<Rightarrow>
             (case parse_header h content_type of
                Inl e \<Rightarrow> Inl e
              | Inr (ct, params) \<Rightarrow>
                  let params1 = dict_set ''charset'' encoding params;
                      params2 = join ''; '' (map (\<lambda>(k, v). k @ ''='' @ v) params1)
                  in IOBasePayload_init h m val
                       (kw\<lparr>kw_content_type := Given (Some (ct @ ''; '' @ params2)),
                           kw_encoding := Given (Some encoding)\<rparr>)))"

text \<open>The classes as callables: each builds an instance of itself.\<close>

type_synonym ctor = "pyobj \<Rightarrow> kwargs \<Rightarrow> exn + pyobj"

definition BytesPayload :: "helpers \<Rightarrow> ctor" where
  "BytesPayload h = BytesPayload_init h [C_BytesPayload, C_Payload]"

definition StringPayload :: "helpers \<Rightarrow> ctor" where
  "StringPayload h = StringPayload_init h [C_StringPayload, C_BytesPayload, C_Payload]"

definition IOBasePayload :: "helpers \<Rightarrow> ctor" where
  "IOBasePayload h = IOBasePayload_init h [C_IOBasePayload, C_Payload]"

definition TextIOPayload :: "helpers \<Rightarrow> ctor" where
  "TextIOPayload h = TextIOPayload_init h [C_TextIOPayload, C_IOBasePayload, C_Payload]"

definition StringIOPayload :: "helpers \<Rightarrow> ctor" where
  "StringIOPayload h =
     TextIOPayload_init h [C_StringIOPayload, C_TextIOPayload, C_IOBasePayload, C_Payload]"

definition BytesIOPayload :: "helpers \<Rightarrow> ctor" where
  "BytesIOPayload h = IOBasePayload_init h [C_BytesIOPayload, C_IOBasePayload, C_Payload]"

definition BufferedReaderPayload :: "helpers \<Rightarrow> ctor" where
  "BufferedReaderPayload h =
     IOBasePayload_init h [C_BufferedReaderPayload, C_IOBasePayload, C_Payload]"

definition StreamReaderPayload :: "helpers \<Rightarrow> ctor" where
  "StreamReaderPayload h val kw = Inr (Payload_init h [C_StreamReaderPayload, C_Payload] val kw)"

definition DataQueuePayload :: "helpers \<Rightarrow> ctor" where
  "DataQueuePayload h val kw = Inr (Payload_init h [C_DataQueuePayload, C_Payload] val kw)"

subsection \<open>The registry\<close>

record payload_registry =
  registry :: "(ctor \<times> cls list) list"

definition PayloadRegistry_init :: payload_registry where
  "PayloadRegistry_init = \<lparr>registry = []\<rparr>"

definition register :: "ctor \<Rightarrow> cls list \<Rightarrow> payload_registry \<Rightarrow> payload_registry" where
  "register c t r = r\<lparr>registry := registry r @ [(c, t)]\<rparr>"

fun get_loop :: "(ctor \<times> cls list) list \<Rightarrow> pyobj \<Rightarrow> kwargs \<Rightarrow> exn + pyobj" where
  \<comment> \<open>the \<open>for\<close> loop of \<open>get\<close> and the \<open>raise\<close> after it\<close>
  "get_loop [] data kw = Inl LookupError"
| "get_loop ((c, t) # rest) data kw =
     (if isinstance data t then c data kw else get_loop rest data kw)"

definition get :: "payload_registry \<Rightarrow> pyobj \<Rightarrow> kwargs \<Rightarrow> exn + pyobj" where
  "get r data kw =
     (if isinstance data [C_Payload] then Inr data else get_loop (registry r) data kw)"

definition PAYLOAD_REGISTRY :: "helpers \<Rightarrow> payload_registry" where
  \<comment> \<open>the module's registry after its nine \<open>register\<close> calls, in their order\<close>
  "PAYLOAD_REGISTRY h =
     fold (\<lambda>(c, t). register c t)
       [(BytesPayload h, [C_bytes, C_bytearray, C_memoryview]),
        (StringPayload h, [C_str]),
        (StringIOPayload h, [C_StringIO]),
        (TextIOPayload h, [C_TextIOBase]),
        (BytesIOPayload h, [C_BytesIO]),
        (BufferedReaderPayload h, [C_BufferedReader, C_BufferedRandom]),
        (IOBasePayload h, [C_IOBase]),
        (StreamReaderPayload h, [C_asyncio_StreamReader, C_StreamReader]),
        (DataQueuePayload h, [C_DataQueue])]
       PayloadRegistry_init"

definition get_payload :: "helpers \<Rightarrow> pyobj \<Rightarrow> kwargs \<Rightarrow> exn + pyobj" where
  "get_payload h data kw = get (PAYLOAD_REGISTRY h) data kw"

lemma get_loop_first:
  assumes "\<forall>(c', t') \<in> set pre. \<not> isinstance data t'" "isinstance data ty"
  shows "get_loop (pre @ (c, ty) # post) data kw = c data kw"
  using assms by (induction pre) auto

lemma get_loop_none:
  assumes "\<forall>(c', t') \<in> set reg. \<not> isinstance data t'"
  shows "get_loop reg data kw = Inl LookupError"
  using assms by (induction reg) auto

lemma registry_PAYLOAD_REGISTRY:
  "registry (PAYLOAD_REGISTRY h) =
     [(BytesPayload h, [C_bytes, C_bytearray, C_memoryview]),
      (StringPayload h, [C_str]),
      (StringIOPayload h, [C_StringIO]),
      (TextIOPayload h, [C_TextIOBase]),
      (BytesIOPayload h, [C_BytesIO]),
      (BufferedReaderPayload h, [C_BufferedReader, C_BufferedRandom]),
      (IOBasePayload h, [C_IOBase]),
      (StreamReaderPayload h, [C_asyncio_StreamReader, C_StreamReader]),
      (DataQueuePayload h, [C_DataQueue])]"
  by (simp add: PAYLOAD_REGISTRY_def register_def PayloadRegistry_init_def)

lemma get_bytes:
  assumes "\<not> isinstance data [C_Payload]"
    "isinstance data [C_bytes, C_bytearray, C_memoryview]"
  shows "get (PAYLOAD_REGISTRY h) data kw = BytesPayload h data kw"
  using assms by (simp add: get_def registry_PAYLOAD_REGISTRY)

lemma get_str:
  assumes "\<not> isinstance data [C_Payload]"
    "\<not> isinstance data [C_bytes, C_bytearray, C_memoryview]" "isinstance data [C_str]"
  shows "get (PAYLOAD_REGISTRY h) data kw = StringPayload h data kw"
  using assms by (simp add: get_def registry_PAYLOAD_REGISTRY)

lemma isinstance_Cons:
  "isinstance data (c # cs) = (c \<in> set (mro data) \<or> isinstance data cs)"
  by (simp add: isinstance_def)

lemma isinstance_Nil: "isinstance data [] = False"
  by (simp add: isinstance_def)

lemma get_unregistered:
  assumes "\<forall>c \<in> set (mro data). \<exists>name. c = C_other name"
  shows "get (PAYLOAD_REGISTRY h) data kw = Inl LookupError"
proof -
  have n: "\<And>c. (\<forall>name. c \<noteq> C_other name) \<Longrightarrow> c \<notin> set (mro data)"
    using assms by blast
  have "\<not> isinstance data [C_Payload]"
    by (simp add: isinstance_Cons isinstance_Nil n)
  moreover have "get_loop (registry (PAYLOAD_REGISTRY h)) data kw = Inl LookupError"
    unfolding registry_PAYLOAD_REGISTRY
    by (simp add: isinstance_Cons isinstance_Nil n)
  ultimately show ?thesis by (simp add: get_def)
qed

lemma Payload_init_fields:
  "mro (Payload_init h m v kw) = m"
  "p_value (state (Payload_init h m v kw)) = v"
  "p_encoding (state (Payload_init h m v kw)) = default None (kw_encoding kw)"
  "p_filename (state (Payload_init h m v kw)) = default None (kw_filename kw)"
  "p_size (state (Payload_init h m v kw)) = None"
  "kw_content_type kw = Given c \<Longrightarrow> p_content_type (state (Payload_init h m v kw)) = c"
  by (simp_all add: Payload_init_def Let_def split: option.splits)

lemma set_size_fields:
  "mro (set_size n (Payload_init h m v kw)) = m"
  "p_value (state (set_size n (Payload_init h m v kw))) = v"
  "p_encoding (state (set_size n (Payload_init h m v kw))) = default None (kw_encoding kw)"
  "p_size (state (set_size n (Payload_init h m v kw))) = n"
  "p_content_type (state (set_size n (Payload_init h m v kw)))
     = p_content_type (state (Payload_init h m v kw))"
  by (simp_all add: Payload_init_def Let_def)

lemma BytesPayload_ok:
  assumes "isinstance data [C_bytes, C_bytearray, C_memoryview]" "state data = Bytes b"
  shows "\<exists>p. BytesPayload_init h m data kw = Inr p \<and> mro p = m \<and> p_value (state p) = data
           \<and> p_size (state p) = Some (len b)
           \<and> p_encoding (state p) = default None (kw_encoding kw)
           \<and> (kw_content_type kw = Absent \<longrightarrow>
                 p_content_type (state p) = Some ''application/octet-stream'')
           \<and> (\<forall>c. kw_content_type kw = Given c \<longrightarrow> p_content_type (state p) = c)"
proof -
  obtain m' where d: "data = PyObj m' (Bytes b)" using assms(2) by (cases data) auto
  have l: "py_len data = Inr (len b)" by (simp add: d)
  let ?kw = "if kw_content_type kw = Absent
             then kw\<lparr>kw_content_type := Given (Some ''application/octet-stream'')\<rparr> else kw"
  have e: "BytesPayload_init h m data kw
             = Inr (set_size (Some (len b)) (Payload_init h m data ?kw))"
    using assms(1) l by (simp add: BytesPayload_init_def Let_def)
  have c1: "kw_content_type kw = Absent \<Longrightarrow>
      p_content_type (state (Payload_init h m data ?kw)) = Some ''application/octet-stream''"
    by (simp add: Payload_init_fields(6))
  have c2: "\<And>c. kw_content_type kw = Given c \<Longrightarrow>
      p_content_type (state (Payload_init h m data ?kw)) = c"
    by (simp add: Payload_init_fields(6))
  have en: "default None (kw_encoding ?kw) = default None (kw_encoding kw)" by simp
  show ?thesis
    unfolding e using c1 c2 en by (simp add: set_size_fields del: set_size.simps)
qed

lemma StringPayload_ok:
  assumes "kw_content_type kw = Absent"
    "parse_mimetype h (Some ''text/plain; charset=utf-8'') = Inr (mtype, stype, suffix, params)"
    "map_of params ''charset'' = None \<or> map_of params ''charset'' = Some ''utf-8''"
    "encode h data ''utf-8'' = Inr enc"
    "isinstance enc [C_bytes, C_bytearray, C_memoryview]" "state enc = Bytes b"
  shows "\<exists>p. StringPayload_init h m data kw = Inr p \<and> mro p = m \<and> p_value (state p) = enc
           \<and> p_size (state p) = Some (len b) \<and> p_encoding (state p) = Some ''utf-8''
           \<and> p_content_type (state p) = Some ''text/plain; charset=utf-8''"
proof -
  let ?kw = "kw\<lparr>kw_encoding := Given (Some ''utf-8''),
                 kw_content_type := Given (Some ''text/plain; charset=utf-8'')\<rparr>"
  have cs: "(case map_of params ''charset'' of None \<Rightarrow> ''utf-8'' | Some c \<Rightarrow> c) = ''utf-8''"
    using assms(3) by (cases "map_of params ''charset''") simp_all
  have df: "default (Some ''text/plain; charset=utf-8'') (kw_content_type kw)
              = Some ''text/plain; charset=utf-8''"
    using assms(1) by simp
  have s: "StringPayload_init h m data kw = BytesPayload_init h m enc ?kw"
  proof (cases "map_of params ''charset''")
    case None
    show ?thesis
      by (simp add: StringPayload_init_def Let_def df assms(2) None assms(4))
  next
    case (Some c)
    then have c: "map_of params ''charset'' = Some ''utf-8''" using assms(3) by simp
    show ?thesis
      by (simp add: StringPayload_init_def Let_def df assms(2) c assms(4))
  qed
  from BytesPayload_ok [OF assms(5,6), of h m ?kw] obtain p where
    p: "BytesPayload_init h m enc ?kw = Inr p" "mro p = m" "p_value (state p) = enc"
      "p_size (state p) = Some (len b)"
      "p_encoding (state p) = default None (kw_encoding ?kw)"
      "\<forall>c. kw_content_type ?kw = Given c \<longrightarrow> p_content_type (state p) = c"
    by blast
  have "p_encoding (state p) = Some ''utf-8''" using p(5) by simp
  moreover have "p_content_type (state p) = Some ''text/plain; charset=utf-8''"
    using p(6) by simp
  ultimately show ?thesis using s p(1-4) by simp
qed

text \<open>
  C9. \<open>PayloadRegistry.get\<close> returns its argument unchanged when it is an instance of
  \<open>Payload\<close>. Otherwise it returns what the constructor of the first registered pair, in
  registration order, whose type the argument is an instance of, returns when called with
  the argument and the options; when the argument is an instance of no registered type it
  raises \<open>LookupError\<close>. On the module's registry, an instance of \<open>bytes\<close>,
  \<open>bytearray\<close> or \<open>memoryview\<close> goes to \<open>BytesPayload\<close>, which wraps the buffer itself
  with its length as size; an instance of \<open>str\<close> goes to \<open>StringPayload\<close>, which, when no
  content type is given and the default content type carries no charset other than
  \<open>utf-8\<close>, wraps the bytes that \<open>encode('utf-8')\<close> returns and records the encoding
  \<open>utf-8\<close>; an object none of whose classes is registered or \<open>Payload\<close> gets
  \<open>LookupError\<close>.
\<close>

theorem registry_get_first_match:
  "(isinstance data [C_Payload] \<longrightarrow> get r data kw = Inr data)
 \<and> (\<not> isinstance data [C_Payload] \<longrightarrow>
      (registry r = pre @ (c, ty) # post \<and> (\<forall>(c', t') \<in> set pre. \<not> isinstance data t')
         \<and> isinstance data ty \<longrightarrow> get r data kw = c data kw)
    \<and> ((\<forall>(c', t') \<in> set (registry r). \<not> isinstance data t') \<longrightarrow>
          get r data kw = Inl LookupError)
    \<and> (isinstance data [C_bytes, C_bytearray, C_memoryview] \<longrightarrow>
          get (PAYLOAD_REGISTRY h) data kw = BytesPayload h data kw
        \<and> (state data = Bytes b \<longrightarrow>
             (\<exists>p. get (PAYLOAD_REGISTRY h) data kw = Inr p
                \<and> mro p = [C_BytesPayload, C_Payload] \<and> p_value (state p) = data
                \<and> p_size (state p) = Some (len b))))
    \<and> (\<not> isinstance data [C_bytes, C_bytearray, C_memoryview] \<and> isinstance data [C_str] \<longrightarrow>
          get (PAYLOAD_REGISTRY h) data kw = StringPayload h data kw
        \<and> (kw_content_type kw = Absent
             \<and> parse_mimetype h (Some ''text/plain; charset=utf-8'') = Inr (mtype, stype, suffix, params)
             \<and> (map_of params ''charset'' = None \<or> map_of params ''charset'' = Some ''utf-8'')
             \<and> encode h data ''utf-8'' = Inr enc
             \<and> isinstance enc [C_bytes, C_bytearray, C_memoryview] \<and> state enc = Bytes b
           \<longrightarrow>
             (\<exists>p. get (PAYLOAD_REGISTRY h) data kw = Inr p
                \<and> mro p = [C_StringPayload, C_BytesPayload, C_Payload]
                \<and> p_value (state p) = enc \<and> p_size (state p) = Some (len b)
                \<and> p_encoding (state p) = Some ''utf-8''
                \<and> p_content_type (state p) = Some ''text/plain; charset=utf-8''))))
 \<and> ((\<forall>cl \<in> set (mro data). \<exists>name. cl = C_other name) \<longrightarrow>
       get (PAYLOAD_REGISTRY h) data kw = Inl LookupError)"
proof (intro conjI impI)
  assume "isinstance data [C_Payload]"
  then show "get r data kw = Inr data" by (simp add: get_def)
next
  assume np: "\<not> isinstance data [C_Payload]"
    and "registry r = pre @ (c, ty) # post
         \<and> (\<forall>(c', t') \<in> set pre. \<not> isinstance data t') \<and> isinstance data ty"
  then have a: "registry r = pre @ (c, ty) # post"
      "\<forall>(c', t') \<in> set pre. \<not> isinstance data t'" "isinstance data ty"
    by simp_all
  from get_loop_first [OF a(2,3), of c post kw] np a(1)
  show "get r data kw = c data kw" by (simp add: get_def)
next
  assume np: "\<not> isinstance data [C_Payload]"
    and a: "\<forall>(c', t') \<in> set (registry r). \<not> isinstance data t'"
  from get_loop_none [OF a, of kw] np
  show "get r data kw = Inl LookupError" by (simp add: get_def)
next
  assume np: "\<not> isinstance data [C_Payload]"
    and b: "isinstance data [C_bytes, C_bytearray, C_memoryview]"
  from get_bytes [OF np b]
  show g: "get (PAYLOAD_REGISTRY h) data kw = BytesPayload h data kw" .
  assume st: "state data = Bytes b"
  from BytesPayload_ok [OF b st, of h "[C_BytesPayload, C_Payload]" kw]
  show "\<exists>p. get (PAYLOAD_REGISTRY h) data kw = Inr p
           \<and> mro p = [C_BytesPayload, C_Payload] \<and> p_value (state p) = data
           \<and> p_size (state p) = Some (len b)"
    unfolding g BytesPayload_def by blast
next
  assume np: "\<not> isinstance data [C_Payload]"
    and "\<not> isinstance data [C_bytes, C_bytearray, C_memoryview] \<and> isinstance data [C_str]"
  then have a: "\<not> isinstance data [C_bytes, C_bytearray, C_memoryview]"
      "isinstance data [C_str]"
    by simp_all
  from get_str [OF np a]
  show g: "get (PAYLOAD_REGISTRY h) data kw = StringPayload h data kw" .
  assume "kw_content_type kw = Absent
       \<and> parse_mimetype h (Some ''text/plain; charset=utf-8'') = Inr (mtype, stype, suffix, params)
       \<and> (map_of params ''charset'' = None \<or> map_of params ''charset'' = Some ''utf-8'')
       \<and> encode h data ''utf-8'' = Inr enc
       \<and> isinstance enc [C_bytes, C_bytearray, C_memoryview] \<and> state enc = Bytes b"
  then have e: "kw_content_type kw = Absent"
      "parse_mimetype h (Some ''text/plain; charset=utf-8'') = Inr (mtype, stype, suffix, params)"
      "map_of params ''charset'' = None \<or> map_of params ''charset'' = Some ''utf-8''"
      "encode h data ''utf-8'' = Inr enc"
      "isinstance enc [C_bytes, C_bytearray, C_memoryview]" "state enc = Bytes b"
    by blast+
  from StringPayload_ok [OF e, of "[C_StringPayload, C_BytesPayload, C_Payload]"]
  show "\<exists>p. get (PAYLOAD_REGISTRY h) data kw = Inr p
           \<and> mro p = [C_StringPayload, C_BytesPayload, C_Payload]
           \<and> p_value (state p) = enc \<and> p_size (state p) = Some (len b)
           \<and> p_encoding (state p) = Some ''utf-8''
           \<and> p_content_type (state p) = Some ''text/plain; charset=utf-8''"
    unfolding g StringPayload_def by blast
next
  assume "\<forall>cl \<in> set (mro data). \<exists>name. cl = C_other name"
  from get_unregistered [OF this]
  show "get (PAYLOAD_REGISTRY h) data kw = Inl LookupError" .
qed

definition example_helpers :: helpers where
  \<comment> \<open>stand-ins for the imported helpers, enough to run the constructors\<close>
  "example_helpers =
     \<lparr>CONTENT_TYPE = ''Content-Type'',
      CONTENT_DISPOSITION = ''Content-Disposition'',
      parse_mimetype = (\<lambda>ct. Inr (''text'', ''plain'', [],
         if ct = Some ''text/plain; charset=utf-8'' then [(''charset'', ''utf-8'')] else [])),
      content_disposition_header = (\<lambda>disptype quote_fields params. disptype),
      guess_filename = (\<lambda>v. None),
      parse_header = (\<lambda>ct. Inr (''text/plain'', [])),
      encode = (\<lambda>v charset. case state v of
                  Text t \<Rightarrow> Inr (PyObj [C_bytes] (Bytes t)) | _ \<Rightarrow> Inl TypeError),
      headers_get = (\<lambda>k hs. map_of hs k),
      headers_set = dict_set\<rparr>"

definition some_bytes :: pyobj where
  "some_bytes = PyObj [C_bytes] (Bytes ''abc'')"

definition some_str :: pyobj where
  "some_str = PyObj [C_str] (Text ''hi'')"

definition some_file :: pyobj where
  \<comment> \<open>an \<open>io.StringIO\<close>, which is also an \<open>io.TextIOBase\<close> and an \<open>io.IOBase\<close>\<close>
  "some_file = PyObj [C_StringIO, C_TextIOBase, C_IOBase] (Handle 0)"

definition some_int :: pyobj where
  "some_int = PyObj [C_other ''int''] (Handle 1)"

definition some_payload :: pyobj where
  "some_payload =
     PyObj [C_BytesPayload, C_Payload]
       (Fields some_bytes None None None (Some ''application/octet-stream'') (Some 3))"

lemma ex_objects:
  "isinstance some_payload [C_Payload]"
  "\<not> isinstance some_bytes [C_Payload]"
  "isinstance some_bytes [C_bytes, C_bytearray, C_memoryview]"
  "state some_bytes = Bytes ''abc''"
  "\<not> isinstance some_str [C_Payload]"
  "\<not> isinstance some_str [C_bytes, C_bytearray, C_memoryview]"
  "isinstance some_str [C_str]"
  "\<not> isinstance some_file [C_Payload]"
  "\<not> isinstance some_file [C_bytes, C_bytearray, C_memoryview]"
  "\<not> isinstance some_file [C_str]"
  "isinstance some_file [C_StringIO]"
  "isinstance some_file [C_TextIOBase]"
  "\<not> isinstance some_int [C_Payload]"
  by code_simp+

lemma ex_helpers:
  "kw_content_type no_kwargs = Absent"
  "parse_mimetype example_helpers (Some ''text/plain; charset=utf-8'')
     = Inr (''text'', ''plain'', [], [(''charset'', ''utf-8'')])"
  "map_of [(''charset'', ''utf-8'')] ''charset'' = Some ''utf-8''"
  "encode example_helpers some_str ''utf-8'' = Inr (PyObj [C_bytes] (Bytes ''hi''))"
  "isinstance (PyObj [C_bytes] (Bytes ''hi'')) [C_bytes, C_bytearray, C_memoryview]"
  "state (PyObj [C_bytes] (Bytes ''hi'')) = Bytes ''hi''"
  by code_simp+

theorem registry_get_first_match_witness:
  "isinstance some_payload [C_Payload]
   \<and> get (PAYLOAD_REGISTRY example_helpers) some_payload no_kwargs = Inr some_payload
   \<and> \<not> isinstance some_bytes [C_Payload]
   \<and> isinstance some_bytes [C_bytes, C_bytearray, C_memoryview]
   \<and> (\<exists>p. get (PAYLOAD_REGISTRY example_helpers) some_bytes no_kwargs = Inr p
          \<and> mro p = [C_BytesPayload, C_Payload] \<and> p_value (state p) = some_bytes
          \<and> p_size (state p) = Some 3)
   \<and> \<not> isinstance some_str [C_Payload] \<and> isinstance some_str [C_str]
   \<and> (\<exists>p. get (PAYLOAD_REGISTRY example_helpers) some_str no_kwargs = Inr p
          \<and> mro p = [C_StringPayload, C_BytesPayload, C_Payload]
          \<and> p_value (state p) = PyObj [C_bytes] (Bytes ''hi'') \<and> p_size (state p) = Some 2
          \<and> p_encoding (state p) = Some ''utf-8''
          \<and> p_content_type (state p) = Some ''text/plain; charset=utf-8'')
   \<and> isinstance some_file [C_StringIO] \<and> isinstance some_file [C_TextIOBase]
   \<and> get (PAYLOAD_REGISTRY example_helpers) some_file no_kwargs
        = StringIOPayload example_helpers some_file no_kwargs
   \<and> get (PAYLOAD_REGISTRY example_helpers) some_int no_kwargs = Inl LookupError"
proof -
  let ?h = example_helpers
  let ?r = "PAYLOAD_REGISTRY ?h"
  have n: "len ''abc'' = 3" "len ''hi'' = 2" by (simp_all add: len_def)
  from registry_get_first_match [where data = some_payload and r = ?r and kw = no_kwargs]
    ex_objects(1)
  have 1: "get ?r some_payload no_kwargs = Inr some_payload" by blast
  from registry_get_first_match
    [where data = some_bytes and h = ?h and kw = no_kwargs and b = "''abc''"]
    ex_objects(2,3,4)
  have 2: "\<exists>p. get ?r some_bytes no_kwargs = Inr p
          \<and> mro p = [C_BytesPayload, C_Payload] \<and> p_value (state p) = some_bytes
          \<and> p_size (state p) = Some 3"
    unfolding n by blast
  from registry_get_first_match
    [where data = some_str and h = ?h and kw = no_kwargs and b = "''hi''"
       and mtype = "''text''" and stype = "''plain''" and suffix = "[]"
       and params = "[(''charset'', ''utf-8'')]" and enc = "PyObj [C_bytes] (Bytes ''hi'')"]
    ex_objects(5,6,7) ex_helpers
  have 3: "\<exists>p. get ?r some_str no_kwargs = Inr p
          \<and> mro p = [C_StringPayload, C_BytesPayload, C_Payload]
          \<and> p_value (state p) = PyObj [C_bytes] (Bytes ''hi'') \<and> p_size (state p) = Some 2
          \<and> p_encoding (state p) = Some ''utf-8''
          \<and> p_content_type (state p) = Some ''text/plain; charset=utf-8''"
    unfolding n by blast
  have pre: "\<forall>(c', t') \<in> set [(BytesPayload ?h, [C_bytes, C_bytearray, C_memoryview]),
                                 (StringPayload ?h, [C_str])].
               \<not> isinstance some_file t'"
    using ex_objects(9,10) by simp
  from registry_get_first_match
    [where data = some_file and r = ?r and kw = no_kwargs
       and pre = "[(BytesPayload ?h, [C_bytes, C_bytearray, C_memoryview]),
                   (StringPayload ?h, [C_str])]"
       and c = "StringIOPayload ?h" and ty = "[C_StringIO]"
       and post = "[(TextIOPayload ?h, [C_TextIOBase]),
                    (BytesIOPayload ?h, [C_BytesIO]),
                    (BufferedReaderPayload ?h, [C_BufferedReader, C_BufferedRandom]),
                    (IOBasePayload ?h, [C_IOBase]),
                    (StreamReaderPayload ?h, [C_asyncio_StreamReader, C_StreamReader]),
                    (DataQueuePayload ?h, [C_DataQueue])]"]
    ex_objects(8,11) pre registry_PAYLOAD_REGISTRY [of ?h]
  have 4: "get ?r some_file no_kwargs = StringIOPayload ?h some_file no_kwargs"
    by simp
  have cl: "\<forall>cl \<in> set (mro some_int). \<exists>name. cl = C_other name"
    by (simp add: some_int_def)
  from registry_get_first_match [where data = some_int and h = ?h and kw = no_kwargs] cl
  have 5: "get ?r some_int no_kwargs = Inl LookupError" by blast
  from 1 2 3 4 5 ex_objects show ?thesis by simp
qed

section \<open>Producer and consumer on the event loop\<close>

text \<open>
  The stream in use: the protocol feeds it (\<open>feed_data\<close>, \<open>feed_eof\<close>) while one
  coroutine reads from it in a loop, \<open>while True: b = yield from call(); if not b: break\<close>,
  which also ends when the call raises. The event loop interleaves the two in any order.
  An event is a call of the producer or a turn of the consumer (\<open>Run\<close>): the consumer
  makes its next call, or, when it is suspended in \<open>_wait\<close>, continues from there; a
  turn given to a consumer whose future is still pending leaves everything as it is.
  An exception of \<open>feed_data\<close> goes to the producer.
\<close>

datatype event = Feed bytes | FeedEof | Run

datatype status = Idle | Waiting nat frame | Done

type_synonym consumer = "status \<times> bytes outcome list \<times> stream_reader"

definition settle :: "bytes outcome list \<Rightarrow> bytes outcome \<times> stream_reader \<Rightarrow> consumer" where
  \<comment> \<open>what the consumer does with the outcome of its call\<close>
  "settle outs rs =
     (case rs of
        (Suspend w k, s) \<Rightarrow> (Waiting w k, outs, s)
      | (Return b, s) \<Rightarrow> (if b = [] then Done else Idle, outs @ [Return b], s)
      | (r, s) \<Rightarrow> (Done, outs @ [r], s))"

fun loop_step ::
  "(stream_reader \<Rightarrow> bytes outcome \<times> stream_reader) \<Rightarrow> event \<Rightarrow> consumer \<Rightarrow> consumer" where
  "loop_step call (Feed d) (st, outs, s) = (st, outs, snd (feed_data d s))"
| "loop_step call FeedEof (st, outs, s) = (st, outs, snd (feed_eof s))"
| "loop_step call Run (Idle, outs, s) = settle outs (call s)"
| "loop_step call Run (Waiting w k, outs, s) = settle outs (resume k w s)"
| "loop_step call Run (Done, outs, s) = (Done, outs, s)"

definition run_loop ::
  "(stream_reader \<Rightarrow> bytes outcome \<times> stream_reader) \<Rightarrow> event list \<Rightarrow> consumer \<Rightarrow> consumer" where
  "run_loop call es c = foldl (\<lambda>c e. loop_step call e c) c es"

fun fed :: "bool \<Rightarrow> event list \<Rightarrow> bytes" where
  \<comment> \<open>the bytes the stream accepts from the events: those fed before EOF\<close>
  "fed closed [] = []"
| "fed closed (Feed d # es) = (if closed then fed closed es else d @ fed closed es)"
| "fed closed (FeedEof # es) = fed True es"
| "fed closed (Run # es) = fed closed es"

fun data_of :: "bytes outcome \<Rightarrow> bytes" where
  \<comment> \<open>the bytes a call hands to the consumer, in its result or in \<open>IncompleteReadError.partial\<close>\<close>
  "data_of (Return b) = b"
| "data_of (Raise (IncompleteReadError partial expected)) = partial"
| "data_of r = []"

definition returned :: "bytes outcome list \<Rightarrow> bytes" where
  "returned outs = concat (map data_of outs)"

fun held :: "frame \<Rightarrow> bytes" where
  \<comment> \<open>the bytes a suspended call has taken from the buffer into its local variables\<close>
  "held (InRead n) = []"
| "held InReadany = []"
| "held (InReadAll blocks) = concat blocks"
| "held (InReadline line line_size) = concat line"
| "held (InReadexactly blocks n) = concat blocks"

fun collected :: "status \<Rightarrow> bytes" where
  "collected (Waiting w k) = held k"
| "collected st = []"

definition attached :: "status \<Rightarrow> stream_reader \<Rightarrow> bool" where
  \<comment> \<open>the reader and its one consumer: a waiting consumer's future is the reader's
      waiter and nothing is there to read, or the future was completed by a feed\<close>
  "attached st s =
     (well_formed s \<and> exception s = None \<and> eof_waiter s = None
      \<and> (case st of
            Waiting w k \<Rightarrow>
              w < length (futures s)
              \<and> ((futures s ! w = Pending \<and> waiter s = Some w \<and> buffer s = [] \<and> \<not> eof s)
                 \<or> ((\<exists>v. futures s ! w = Result v) \<and> waiter s = None
                    \<and> (buffer s \<noteq> [] \<or> eof s)))
          | _ \<Rightarrow> waiter s = None))"

lemma run_loop_Nil [simp]: "run_loop call [] c = c"
  by (simp add: run_loop_def)

lemma run_loop_Cons [simp]: "run_loop call (e # es) c = run_loop call es (loop_step call e c)"
  by (simp add: run_loop_def)

lemma run_loop_snoc: "run_loop call (es @ [e]) c = loop_step call e (run_loop call es c)"
  by (simp add: run_loop_def)

lemma returned_simps [simp]:
  "returned [] = []" "returned (outs @ [r]) = returned outs @ data_of r"
  by (simp_all add: returned_def)

lemma attached_waiters_ok: "attached st s \<Longrightarrow> waiters_ok s"
  by (cases st) (auto simp: attached_def waiters_ok_def live_def)

lemma feed_data_waiter:
  assumes "\<not> eof s"
    and "case waiter s of None \<Rightarrow> True
         | Some w \<Rightarrow> w < length (futures s) \<and> futures s ! w = Pending"
  shows "eof_waiter (snd (feed_data d s)) = eof_waiter s"
    and "d = [] \<Longrightarrow> waiter (snd (feed_data d s)) = waiter s
           \<and> futures (snd (feed_data d s)) = futures s
           \<and> buffer (snd (feed_data d s)) = buffer s"
    and "d \<noteq> [] \<Longrightarrow> waiter (snd (feed_data d s)) = None
           \<and> buffer (snd (feed_data d s)) \<noteq> []
           \<and> futures (snd (feed_data d s))
               = (case waiter s of None \<Rightarrow> futures s
                  | Some w \<Rightarrow> (futures s)[w := Result False])"
  using assms
  by (auto simp: feed_data_def fc_feed_data_def sr_feed_data_def wake_waiter_def complete_def
        fut_def Let_def split: option.splits prod.splits)

lemma feed_eof_waiter:
  assumes "eof_waiter s = None"
    and "case waiter s of None \<Rightarrow> True
         | Some w \<Rightarrow> w < length (futures s) \<and> futures s ! w = Pending"
  shows "eof_waiter (snd (feed_eof s)) = None" "waiter (snd (feed_eof s)) = None"
    "futures (snd (feed_eof s))
       = (case waiter s of None \<Rightarrow> futures s | Some w \<Rightarrow> (futures s)[w := Result True])"
    "buffer (snd (feed_eof s)) = buffer s"
  using assms
  by (auto simp: feed_eof_def wake_waiter_def wake_eof_waiter_def complete_def
        fut_def Let_def split: option.splits prod.splits)

lemma attached_waiter:
  assumes "attached st s"
  shows "case waiter s of None \<Rightarrow> True
         | Some w \<Rightarrow> w < length (futures s) \<and> futures s ! w = Pending"
  using assms by (cases st) (auto simp: attached_def split: option.splits)

lemma attached_feed_data:
  assumes "attached st s"
  shows "attached st (snd (feed_data d s))"
    and "remaining (snd (feed_data d s)) = remaining s @ (if eof s then [] else d)"
    and "eof (snd (feed_data d s)) = eof s"
    and "limit (snd (feed_data d s)) = limit s"
proof -
  let ?s' = "snd (feed_data d s)"
  have "attached st ?s' \<and> remaining ?s' = remaining s @ (if eof s then [] else d)
        \<and> eof ?s' = eof s \<and> limit ?s' = limit s"
  proof (cases "eof s")
    case True
    with assms show ?thesis by (simp add: feed_data_after_eof)
  next
    case False
    note ne = False
    have wf: "well_formed s" and ex: "exception s = None" and ew: "eof_waiter s = None"
      using assms by (simp_all add: attached_def)
    from feed_data_ok [OF wf attached_waiters_ok [OF assms] False, of d]
    have p: "well_formed ?s'" "\<not> eof ?s'" "exception ?s' = exception s"
      "remaining ?s' = remaining s @ d" "limit ?s' = limit s"
      by auto
    note w = feed_data_waiter [OF False attached_waiter [OF assms], of d]
    have "attached st ?s'"
    proof (cases st)
      case Idle
      with assms have "waiter s = None" by (simp add: attached_def)
      with w p ex ew Idle show ?thesis by (cases "d = []") (simp_all add: attached_def)
    next
      case Done
      with assms have "waiter s = None" by (simp add: attached_def)
      with w p ex ew Done show ?thesis by (cases "d = []") (simp_all add: attached_def)
    next
      case (Waiting x k)
      with assms have a: "x < length (futures s)"
        "(futures s ! x = Pending \<and> waiter s = Some x \<and> buffer s = [] \<and> \<not> eof s)
         \<or> ((\<exists>v. futures s ! x = Result v) \<and> waiter s = None \<and> (buffer s \<noteq> [] \<or> eof s))"
        by (simp_all add: attached_def)
      show ?thesis
      proof (cases "d = []")
        case True
        with w a p ex ew ne Waiting show ?thesis by (simp add: attached_def)
      next
        case False
        with w a p ex ew ne Waiting show ?thesis by (auto simp: attached_def)
      qed
    qed
    with p ne show ?thesis by simp
  qed
  then show "attached st ?s'"
    and "remaining ?s' = remaining s @ (if eof s then [] else d)"
    and "eof ?s' = eof s" and "limit ?s' = limit s"
    by simp_all
qed

lemma attached_feed_eof:
  assumes "attached st s"
  shows "attached st (snd (feed_eof s))"
    and "remaining (snd (feed_eof s)) = remaining s"
    and "eof (snd (feed_eof s))"
    and "limit (snd (feed_eof s)) = limit s"
proof -
  let ?s' = "snd (feed_eof s)"
  have wf: "well_formed s" and ex: "exception s = None" and ew: "eof_waiter s = None"
    using assms by (simp_all add: attached_def)
  from feed_eof_ok [OF wf attached_waiters_ok [OF assms]]
  have p: "well_formed ?s'" "eof ?s'" "exception ?s' = exception s"
    "remaining ?s' = remaining s" "limit ?s' = limit s"
    by auto
  note w = feed_eof_waiter [OF ew attached_waiter [OF assms]]
  have "attached st ?s'"
  proof (cases st)
    case Idle
    with w p ex show ?thesis by (simp add: attached_def)
  next
    case Done
    with w p ex show ?thesis by (simp add: attached_def)
  next
    case (Waiting x k)
    with assms have a: "x < length (futures s)"
      "(futures s ! x = Pending \<and> waiter s = Some x \<and> buffer s = [] \<and> \<not> eof s)
       \<or> ((\<exists>v. futures s ! x = Result v) \<and> waiter s = None \<and> (buffer s \<noteq> [] \<or> eof s))"
      by (simp_all add: attached_def)
    with w p ex Waiting show ?thesis by (auto simp: attached_def)
  qed
  with p show "attached st ?s'" and "remaining ?s' = remaining s" and "eof ?s'"
    and "limit ?s' = limit s"
    by simp_all
qed

subsection \<open>One turn of the consumer\<close>

definition took :: "stream_reader \<Rightarrow> bytes \<Rightarrow> stream_reader \<Rightarrow> bool" where
  \<comment> \<open>\<open>s'\<close> is \<open>s\<close> after a call took bytes from the buffer and left \<open>rest\<close>\<close>
  "took s rest s' =
     (well_formed s' \<and> remaining s' = rest \<and> exception s' = exception s \<and> eof s' = eof s
      \<and> limit s' = limit s \<and> eof_waiter s' = eof_waiter s \<and> waiter s' = waiter s
      \<and> futures s' = futures s)"

definition parked :: "stream_reader \<Rightarrow> nat \<Rightarrow> stream_reader \<Rightarrow> bool" where
  \<comment> \<open>\<open>s'\<close> is \<open>s\<close>, its buffer emptied, with the new pending future \<open>w\<close> as waiter\<close>
  "parked s w s' =
     (w = length (futures s) \<and> futures s' = futures s @ [Pending] \<and> waiter s' = Some w
      \<and> well_formed s' \<and> buffer s' = [] \<and> exception s' = exception s \<and> eof s' = eof s
      \<and> limit s' = limit s \<and> eof_waiter s' = eof_waiter s)"

lemma took_trans: "took s r1 s1 \<Longrightarrow> took s1 r2 s2 \<Longrightarrow> took s r2 s2"
  by (simp add: took_def)

lemma took_parked: "took s r1 s1 \<Longrightarrow> parked s1 w s2 \<Longrightarrow> parked s w s2"
  by (simp add: took_def parked_def)

lemma took_same_rest:
  "well_formed s' \<Longrightarrow> remaining s' = rest \<Longrightarrow> same_rest s s' \<Longrightarrow> took s rest s'"
  by (simp add: took_def same_rest_def)

lemma decorated_took:
  assumes "took s rest s1"
  shows "\<exists>s'. decorated (Return x, s1) = (Return x, s') \<and> took s rest s'"
proof -
  obtain s' where d: "decorated (Return x, s1) = (Return x, s')"
    "well_formed s' = well_formed s1" "remaining s' = remaining s1" "same_rest s1 s'"
    by (rule decorated_ReturnE)
  then show ?thesis using assms by (auto simp: took_def same_rest_def)
qed

lemma waiter_None_id: "waiter s = None \<Longrightarrow> s\<lparr>waiter := None\<rparr> = s"
  by (cases s) simp

lemma wait_start_parked:
  assumes "well_formed s" "buffer s = []" "waiter s = None"
  shows "\<exists>w s'. wait_start name s = (Inr w, s') \<and> parked s w s'"
proof -
  let ?s' = "s\<lparr>futures := futures s @ [Pending], waiter := Some (length (futures s))\<rparr>"
  have "well_formed ?s'" using assms(1) buffer_cong [of ?s' s] by simp
  then show ?thesis using assms(2,3) by (simp add: wait_start_def Let_def parked_def)
qed

lemma attached_took:
  assumes "attached st s" "waiter s = None" "took s rest s'"
  shows "attached Idle s'" "attached Done s'"
  using assms by (simp_all add: attached_def took_def)

lemma attached_parked:
  assumes "attached st s" "\<not> eof s" "parked s w s'"
  shows "attached (Waiting w k) s'"
  using assms by (simp add: attached_def parked_def)

text \<open>\<open>readany\<close>, at the call and after its wait.\<close>

lemma readany_call:
  assumes "well_formed s" "exception s = None" "waiter s = None"
  shows "buffer s \<noteq> [] \<or> eof s \<Longrightarrow>
           \<exists>s'. readany s = (Return (remaining s), s') \<and> took s [] s'"
    and "buffer s = [] \<Longrightarrow> \<not> eof s \<Longrightarrow>
           \<exists>w s'. readany s = (Suspend w InReadany, s') \<and> parked s w s'"
proof -
  show "\<exists>s'. readany s = (Return (remaining s), s') \<and> took s [] s'"
    if "buffer s \<noteq> [] \<or> eof s"
  proof -
    have "took s [] (drained s)"
      using well_formed_drained [OF assms(1)] drained_same(1,3) [of s]
      by (simp add: took_same_rest)
    from decorated_took [OF this, of "remaining s"] sr_readany_ready [OF assms(2) that]
    show ?thesis by (simp add: readany_def)
  qed
  show "\<exists>w s'. readany s = (Suspend w InReadany, s') \<and> parked s w s'"
    if "buffer s = []" "\<not> eof s"
    using wait_start_parked [OF assms(1) that(1) assms(3), of "''readany''"] that assms(2)
    by (auto simp: readany_def sr_readany_def)
qed

lemma readany_resume:
  assumes "well_formed s" "waiter s = None" "fut (futures s) w = Result v"
  shows "\<exists>s'. resume InReadany w s = (Return (remaining s), s') \<and> took s [] s'"
proof -
  have "took s [] (drained s)"
    using well_formed_drained [OF assms(1)] drained_same(1,3) [of s]
    by (simp add: took_same_rest)
  from decorated_took [OF this, of "remaining s"] assms(2,3)
  show ?thesis
    by (simp add: resume_def wait_resume_def waiter_None_id priv_read_nowait_all)
qed

text \<open>\<open>read(n)\<close> for \<open>n > 0\<close>, at the call and after its wait.\<close>

lemma read_call:
  assumes "well_formed s" "exception s = None" "waiter s = None" "0 < n"
  shows "buffer s \<noteq> [] \<or> eof s \<Longrightarrow>
           \<exists>s'. read n s = (Return (take (nat n) (remaining s)), s')
              \<and> took s (drop (nat n) (remaining s)) s'"
    and "buffer s = [] \<Longrightarrow> \<not> eof s \<Longrightarrow>
           \<exists>w s'. read n s = (Suspend w (InRead n), s') \<and> parked s w s'"
proof -
  show "\<exists>s'. read n s = (Return (take (nat n) (remaining s)), s')
              \<and> took s (drop (nat n) (remaining s)) s'"
    if "buffer s \<noteq> [] \<or> eof s"
    using read_ready [OF assms(1,2,4) that] by (auto simp: took_same_rest)
  show "\<exists>w s'. read n s = (Suspend w (InRead n), s') \<and> parked s w s'"
    if "buffer s = []" "\<not> eof s"
    using wait_start_parked [OF assms(1) that(1) assms(3), of "''read''"] that assms(2,4)
    by (auto simp: read_def sr_read_def)
qed

lemma read_resume:
  assumes "well_formed s" "waiter s = None" "fut (futures s) w = Result v" "0 < n"
  shows "\<exists>s'. resume (InRead n) w s = (Return (take (nat n) (remaining s)), s')
           \<and> took s (drop (nat n) (remaining s)) s'"
proof -
  from priv_read_nowait_take [OF assms(1,4)] obtain s1 where
    s1: "priv_read_nowait n s = (Return (take (nat n) (remaining s)), s1)"
      "took s (drop (nat n) (remaining s)) s1"
    by (auto simp: took_same_rest)
  from decorated_took [OF s1(2), of "take (nat n) (remaining s)"] s1(1) assms(2,3)
  show ?thesis by (simp add: resume_def wait_resume_def waiter_None_id)
qed

subsection \<open>Invariants of the loop\<close>

definition stream_of :: "consumer \<Rightarrow> stream_reader" where
  "stream_of c = snd (snd c)"

definition accepted :: "event \<Rightarrow> stream_reader \<Rightarrow> bytes" where
  \<comment> \<open>the bytes an event adds to the stream\<close>
  "accepted e s = (case e of Feed d \<Rightarrow> if eof s then [] else d | _ \<Rightarrow> [])"

lemma stream_of_simp [simp]: "stream_of (st, outs, s) = s"
  by (simp add: stream_of_def)

lemma run_loop_invariant:
  assumes step: "\<And>T c e. I T c \<Longrightarrow>
      I (T @ accepted e (stream_of c)) (loop_step call e c)
      \<and> eof (stream_of (loop_step call e c)) = (eof (stream_of c) \<or> e = FeedEof)"
    and "I T c"
  shows "I (T @ fed (eof (stream_of c)) es) (run_loop call es c)
         \<and> eof (stream_of (run_loop call es c)) = (eof (stream_of c) \<or> FeedEof \<in> set es)"
  using assms(2)
proof (induction es arbitrary: T c)
  case Nil
  then show ?case by simp
next
  case (Cons e es)
  let ?c = "loop_step call e c"
  from step [OF Cons.prems, of e] have
    i: "I (T @ accepted e (stream_of c)) ?c" and e: "eof (stream_of ?c) = (eof (stream_of c) \<or> e = FeedEof)"
    by simp_all
  have f: "fed (eof (stream_of c)) (e # es) = accepted e (stream_of c) @ fed (eof (stream_of ?c)) es"
    using e by (cases e) (auto simp: accepted_def)
  from Cons.IH [OF i] e f show ?case by auto
qed

lemma resume_pending:
  assumes "w < length (futures s)" "futures s ! w = Pending"
  shows "resume k w s = (Suspend w k, s)"
  using assms by (simp add: resume_def wait_resume_def fut_def)

lemma attached_result:
  assumes "attached (Waiting w k) s" "futures s ! w \<noteq> Pending"
  shows "well_formed s" "waiter s = None" "\<exists>v. fut (futures s) w = Result v"
    "buffer s \<noteq> [] \<or> eof s" "exception s = None"
  using assms by (auto simp: attached_def fut_def)

lemma attached_pending:
  assumes "attached (Waiting w k) s" "futures s ! w = Pending"
  shows "w < length (futures s)" "buffer s = []" "\<not> eof s" "remaining s = []"
  using assms by (auto simp: attached_def remaining_def)

lemma attached_idle:
  assumes "attached Idle s"
  shows "well_formed s" "exception s = None" "waiter s = None"
  using assms by (auto simp: attached_def)

lemma parked_remaining: "parked s w s' \<Longrightarrow> remaining s' = [] \<and> eof s' = eof s"
  by (simp add: parked_def remaining_def)

lemma took_fields: "took s rest s' \<Longrightarrow> remaining s' = rest \<and> eof s' = eof s \<and> limit s' = limit s"
  by (simp add: took_def)

text \<open>The loop around \<open>readany\<close>.\<close>

definition readany_inv :: "bytes \<Rightarrow> consumer \<Rightarrow> bool" where
  "readany_inv T c =
     (case c of (st, outs, s) \<Rightarrow>
        attached st s
        \<and> (\<forall>w k. st = Waiting w k \<longrightarrow> k = InReadany)
        \<and> (\<forall>r \<in> set outs. \<exists>b. r = Return b)
        \<and> returned outs @ remaining s = T
        \<and> (st = Done) = (Return [] \<in> set outs)
        \<and> (st = Done \<longrightarrow> eof s \<and> remaining s = []))"

lemma readany_inv_run:
  assumes "readany_inv T (st, outs, s)"
  shows "\<exists>st' outs' s'. loop_step readany Run (st, outs, s) = (st', outs', s')
           \<and> readany_inv T (st', outs', s') \<and> eof s' = eof s \<and> remaining s' = []
           \<and> (eof s \<longrightarrow> st' = Done \<or> (st' = Idle \<and> st \<noteq> Idle) \<or> (st' = Idle \<and> remaining s \<noteq> []))"
proof -
  from assms have att: "attached st s" and k: "\<forall>w k. st = Waiting w k \<longrightarrow> k = InReadany"
    and ret: "\<forall>r \<in> set outs. \<exists>b. r = Return b" and T: "returned outs @ remaining s = T"
    and dn: "(st = Done) = (Return [] \<in> set outs)" "st = Done \<longrightarrow> eof s \<and> remaining s = []"
    by (simp_all add: readany_inv_def)
  show ?thesis
  proof (cases st)
    case Done
    with assms dn show ?thesis by simp
  next
    case Idle
    note i = attached_idle [OF att [unfolded Idle]]
    show ?thesis
    proof (cases "buffer s \<noteq> [] \<or> eof s")
      case True
      from readany_call(1) [OF i True] obtain s' where
        r: "readany s = (Return (remaining s), s')" "took s [] s'" by blast
      have ne: "remaining s = [] \<Longrightarrow> eof s"
        using True i(1) by (simp add: remaining_empty_iff)
      show ?thesis
        using r Idle att i(3) attached_took [OF att i(3) r(2)] took_fields [OF r(2)]
          ret T dn ne
        by (cases "remaining s = []") (auto simp: settle_def readany_inv_def)
    next
      case False
      then have f: "buffer s = []" "\<not> eof s" by simp_all
      from readany_call(2) [OF i f] obtain w s' where
        r: "readany s = (Suspend w InReadany, s')" "parked s w s'" by blast
      have rem: "remaining s = []" using f(1) by (simp add: remaining_def)
      show ?thesis
        using r Idle attached_parked [OF att f(2) r(2)] parked_remaining [OF r(2)]
          ret T dn rem f
        by (auto simp: settle_def readany_inv_def)
    qed
  next
    case (Waiting w fr)
    with k have fr: "fr = InReadany" by simp
    note a = att [unfolded Waiting]
    show ?thesis
    proof (cases "futures s ! w = Pending")
      case True
      note p = attached_pending [OF a True]
      from resume_pending [OF p(1) True, of fr] Waiting assms p show ?thesis
        by (simp add: settle_def)
    next
      case False
      note p = attached_result [OF a False]
      from p(3) obtain v where v: "fut (futures s) w = Result v" by blast
      from readany_resume [OF p(1,2) v] obtain s' where
        r: "resume InReadany w s = (Return (remaining s), s')" "took s [] s'" by blast
      have ne: "remaining s = [] \<Longrightarrow> eof s"
        using p(4) p(1) by (simp add: remaining_empty_iff)
      show ?thesis
        using r Waiting fr a p(2) attached_took [OF a p(2) r(2)] took_fields [OF r(2)]
          ret T dn ne
        by (cases "remaining s = []") (auto simp: settle_def readany_inv_def)
    qed
  qed
qed

definition turns :: "event list \<Rightarrow> nat" where
  \<comment> \<open>how often the consumer gets to run\<close>
  "turns es = length (filter (\<lambda>e. e = Run) es)"

lemma run_loop_append:
  "run_loop call (es @ es') c = run_loop call es' (run_loop call es c)"
  by (simp add: run_loop_def)

lemma run_loop_potential:
  assumes step: "\<And>c e. J c \<Longrightarrow>
      J (loop_step call e c) \<and> pot (loop_step call e c) \<le> pot c
      \<and> (e = Run \<longrightarrow> pot (loop_step call e c) < pot c \<or> pot c = (0::nat))"
    and "J c"
  shows "pot (run_loop call es c) \<le> pot c - turns es"
  using assms(2)
proof (induction es arbitrary: c)
  case Nil
  then show ?case by (simp add: turns_def)
next
  case (Cons e es)
  from step [OF Cons.prems, of e] Cons.IH [of "loop_step call e c"]
  show ?case by (cases "e = Run") (auto simp: turns_def)
qed

lemma readany_inv_step:
  assumes "readany_inv T c"
  shows "readany_inv (T @ accepted e (stream_of c)) (loop_step readany e c)
         \<and> eof (stream_of (loop_step readany e c)) = (eof (stream_of c) \<or> e = FeedEof)"
proof -
  obtain st outs s where c: "c = (st, outs, s)" by (cases c) auto
  from assms have att: "attached st s" and dn: "st = Done \<longrightarrow> eof s \<and> remaining s = []"
    by (simp_all add: readany_inv_def c)
  show ?thesis
  proof (cases e)
    case (Feed d)
    from attached_feed_data [OF att, of d] assms dn show ?thesis
      by (auto simp: readany_inv_def c Feed accepted_def)
  next
    case FeedEof
    from attached_feed_eof [OF att] assms dn show ?thesis
      by (auto simp: readany_inv_def c FeedEof accepted_def)
  next
    case Run
    from readany_inv_run [OF assms [unfolded c]] show ?thesis
      by (auto simp: c Run accepted_def)
  qed
qed

fun readany_left :: "consumer \<Rightarrow> nat" where
  \<comment> \<open>at EOF, the calls the consumer still has to make\<close>
  "readany_left (Done, outs, s) = 0"
| "readany_left (Idle, outs, s) = (if remaining s = [] then 1 else 2)"
| "readany_left (Waiting w k, outs, s) = 2"

lemma readany_left_step:
  assumes "(\<exists>T. readany_inv T c) \<and> eof (stream_of c)"
  shows "((\<exists>T. readany_inv T (loop_step readany e c)) \<and> eof (stream_of (loop_step readany e c)))
         \<and> readany_left (loop_step readany e c) \<le> readany_left c
         \<and> (e = Run \<longrightarrow> readany_left (loop_step readany e c) < readany_left c
                          \<or> readany_left c = 0)"
proof -
  obtain st outs s where c: "c = (st, outs, s)" by (cases c) auto
  from assms obtain T where inv: "readany_inv T c" and e: "eof s" by (auto simp: c)
  then have att: "attached st s" by (simp add: readany_inv_def c)
  note st = readany_inv_step [OF inv, of e]
  show ?thesis
  proof (cases e)
    case (Feed d)
    from attached_feed_data(2) [OF att, of d] st e show ?thesis
      by (cases st) (auto simp: c Feed)
  next
    case FeedEof
    from attached_feed_eof(2) [OF att] st e show ?thesis
      by (cases st) (auto simp: c FeedEof)
  next
    case Run
    from readany_inv_run [OF inv [unfolded c]] e st show ?thesis
      by (cases st) (auto simp: c Run)
  qed
qed

lemma readany_left_0: "(readany_left c = 0) = (fst c = Done)"
  by (cases c rule: readany_left.cases) simp_all

lemma readany_inv_start:
  assumes "well_formed s0" "exception s0 = None" "waiter s0 = None" "eof_waiter s0 = None"
  shows "readany_inv (remaining s0) (Idle, [], s0)"
  using assms by (simp add: readany_inv_def attached_def)

lemma readany_inv_run_loop:
  assumes "readany_inv T c"
  shows "readany_inv (T @ fed (eof (stream_of c)) es) (run_loop readany es c)"
    and "eof (stream_of (run_loop readany es c)) = (eof (stream_of c) \<or> FeedEof \<in> set es)"
  using run_loop_invariant [where I = readany_inv and call = readany, OF readany_inv_step assms,
      of es]
  by simp_all

lemma readany_left_le: "readany_left c \<le> 2"
  by (cases c rule: readany_left.cases) simp_all

text \<open>
  C1. Take a reader that is open (no EOF, no stored exception) with its buffer in order
  and nobody waiting on it, and any interleaving \<open>es\<close> of \<open>feed_data\<close> calls, \<open>feed_eof\<close>
  calls and turns of a consumer that calls \<open>readany()\<close> repeatedly until it gets the empty
  string. Every call that has finished returned (none raised); at every moment the results
  so far, concatenated, followed by the bytes still in the buffer are the bytes that were
  in the buffer at the start followed by the chunks fed before EOF, in order, so nothing
  is lost, reordered or duplicated; after each turn of the consumer the buffer is empty, so
  the results are all the bytes fed so far, and once EOF was fed the consumer is no longer
  waiting; the consumer gets the empty string only after EOF, when it has received
  everything; and with two turns after \<open>feed_eof\<close> it has got there. A call that waits
  is woken by the next non-empty \<open>feed_data\<close> or by \<open>feed_eof\<close> and returns what is in
  the buffer then.
\<close>

theorem readany_returns_what_was_fed:
  assumes "well_formed s0" "exception s0 = None" "\<not> eof s0" "waiter s0 = None"
    "eof_waiter s0 = None"
    and "run_loop readany es (Idle, [], s0) = (st, outs, s)"
  shows "(\<forall>r \<in> set outs. \<exists>b. r = Return b)
       \<and> returned outs @ remaining s = remaining s0 @ fed False es
       \<and> eof s = (FeedEof \<in> set es)
       \<and> (\<forall>w k. st = Waiting w k \<longrightarrow> k = InReadany)
       \<and> (es \<noteq> [] \<and> last es = Run \<longrightarrow>
            remaining s = [] \<and> returned outs = remaining s0 @ fed False es
            \<and> (eof s \<longrightarrow> st = Idle \<or> st = Done))
       \<and> (st = Done) = (Return [] \<in> set outs)
       \<and> (st = Done \<longrightarrow> eof s \<and> returned outs = remaining s0 @ fed False es)
       \<and> (\<forall>pre post. es = pre @ FeedEof # post \<and> 2 \<le> turns post \<longrightarrow> st = Done)"
proof -
  let ?c0 = "(Idle, [], s0) :: consumer"
  let ?T = "remaining s0 @ fed False es"
  note i0 = readany_inv_start [OF assms(1,2,4,5)]
  from readany_inv_run_loop [OF i0, of es] assms(3,6)
  have inv: "readany_inv ?T (st, outs, s)" and e: "eof s = (FeedEof \<in> set es)"
    by simp_all
  have last: "remaining s = [] \<and> returned outs = ?T \<and> (eof s \<longrightarrow> st = Idle \<or> st = Done)"
    if "es \<noteq> []" "last es = Run"
  proof -
    from append_butlast_last_id [OF that(1)] that(2)
    have "es = butlast es @ [Run]" by simp
    then obtain es' where es: "es = es' @ [Run]" ..
    obtain st1 outs1 s1 where c1: "run_loop readany es' ?c0 = (st1, outs1, s1)"
      by (cases "run_loop readany es' ?c0") auto
    from readany_inv_run_loop(1) [OF i0, of es'] c1
    have "\<exists>T. readany_inv T (st1, outs1, s1)" by auto
    then obtain T1 where i1: "readany_inv T1 (st1, outs1, s1)" ..
    from readany_inv_run [OF i1] assms(6) c1
    have "remaining s = []" "eof s \<longrightarrow> st = Idle \<or> st = Done"
      by (auto simp: es run_loop_snoc)
    moreover from inv have "returned outs @ remaining s = ?T" by (simp add: readany_inv_def)
    ultimately show ?thesis by simp
  qed
  have ends: "st = Done" if "es = pre @ FeedEof # post" "2 \<le> turns post" for pre post
  proof -
    let ?c1 = "loop_step readany FeedEof (run_loop readany pre ?c0)"
    from readany_inv_run_loop(1) [OF i0, of pre]
    have "\<exists>T. readany_inv T (run_loop readany pre ?c0)" by auto
    then obtain T1 where "readany_inv T1 (run_loop readany pre ?c0)" ..
    from readany_inv_step [OF this, of FeedEof]
    have j: "(\<exists>T. readany_inv T ?c1) \<and> eof (stream_of ?c1)" by auto
    have r: "run_loop readany es ?c0 = run_loop readany post ?c1"
      by (simp add: that(1) run_loop_append)
    from run_loop_potential [where J = "\<lambda>c. (\<exists>T. readany_inv T c) \<and> eof (stream_of c)"
        and pot = readany_left and call = readany, OF readany_left_step j, of post]
      readany_left_le [of ?c1] that(2)
    have "readany_left (run_loop readany post ?c1) = 0" by simp
    then have "readany_left (st, outs, s) = 0" using r assms(6) by simp
    then show ?thesis by (simp add: readany_left_0)
  qed
  from inv have p: "\<forall>r \<in> set outs. \<exists>b. r = Return b"
      "returned outs @ remaining s = ?T" "\<forall>w k. st = Waiting w k \<longrightarrow> k = InReadany"
      "(st = Done) = (Return [] \<in> set outs)" "st = Done \<longrightarrow> eof s \<and> remaining s = []"
    by (simp_all add: readany_inv_def)
  have d: "st = Done \<longrightarrow> eof s \<and> returned outs = ?T" using p(2,5) by auto
  show ?thesis
    apply (intro conjI)
    subgoal by (rule p(1))
    subgoal by (rule p(2))
    subgoal by (rule e)
    subgoal by (rule p(3))
    subgoal using last by blast
    subgoal by (rule p(4))
    subgoal by (rule d)
    subgoal using ends by blast
    done
qed

definition readany_events :: "event list" where
  \<comment> \<open>the consumer waits before the first chunk and again before EOF\<close>
  "readany_events =
     [Run, Feed ''ab'', Run, Feed [], Feed ''cde'', Run, Run, FeedEof, Run, Run]"

lemma ex_fresh_eof_waiter: "eof_waiter (StreamReader_init 10) = None"
  by code_simp

lemma ex_readany_loop:
  "fst (run_loop readany readany_events (Idle, [], StreamReader_init 10)) = Done"
  "fst (snd (run_loop readany readany_events (Idle, [], StreamReader_init 10)))
     = [Return ''ab'', Return ''cde'', Return []]"
  "fed False readany_events = ''abcde''"
  "fst (run_loop readany (take 4 readany_events) (Idle, [], StreamReader_init 10)) = Idle"
  "fst (run_loop readany (take 7 readany_events) (Idle, [], StreamReader_init 10))
     = Waiting 1 InReadany"
  by code_simp+

theorem readany_returns_what_was_fed_witness:
  "well_formed (StreamReader_init 10) \<and> exception (StreamReader_init 10) = None
   \<and> \<not> eof (StreamReader_init 10) \<and> waiter (StreamReader_init 10) = None
   \<and> eof_waiter (StreamReader_init 10) = None
   \<and> fst (run_loop readany readany_events (Idle, [], StreamReader_init 10)) = Done
   \<and> fst (snd (run_loop readany readany_events (Idle, [], StreamReader_init 10)))
        = [Return ''ab'', Return ''cde'', Return []]
   \<and> returned [Return ''ab'', Return ''cde'', Return []] = ''abcde''
   \<and> fed False readany_events = ''abcde''
   \<and> eof (snd (snd (run_loop readany readany_events (Idle, [], StreamReader_init 10))))"
proof -
  let ?r = "run_loop readany readany_events (Idle, [], StreamReader_init 10)"
  have r: "?r = (fst ?r, fst (snd ?r), snd (snd ?r))" by simp
  from readany_returns_what_was_fed
    [OF ex_fresh_ok(1) ex_fresh_ok(4) ex_fresh_ok(3) ex_fresh_empty(2) ex_fresh_eof_waiter r]
  have "fst ?r = Done \<longrightarrow> eof (snd (snd ?r))
          \<and> returned (fst (snd ?r)) = remaining (StreamReader_init 10) @ fed False readany_events"
    by blast
  with ex_readany_loop ex_fresh_ok ex_fresh_empty ex_fresh_eof_waiter show ?thesis
    by simp
qed

text \<open>The loop around \<open>read(n)\<close>, \<open>n > 0\<close>.\<close>

definition read_inv :: "int \<Rightarrow> bytes \<Rightarrow> consumer \<Rightarrow> bool" where
  "read_inv n T c =
     (case c of (st, outs, s) \<Rightarrow>
        attached st s
        \<and> (\<forall>w k. st = Waiting w k \<longrightarrow> k = InRead n)
        \<and> (\<forall>r \<in> set outs. \<exists>b. r = Return b \<and> len b \<le> n)
        \<and> returned outs @ remaining s = T
        \<and> (st = Done) = (Return [] \<in> set outs)
        \<and> (st = Done \<longrightarrow> eof s \<and> remaining s = []))"

lemma read_inv_run:
  assumes "read_inv n T (st, outs, s)" "0 < n"
  shows "\<exists>st' outs' s'. loop_step (read n) Run (st, outs, s) = (st', outs', s')
           \<and> read_inv n T (st', outs', s') \<and> eof s' = eof s
           \<and> (\<forall>w k. st' = Waiting w k \<longrightarrow>
                 remaining s' = [] \<and> \<not> eof s' \<and> futures s' ! w = Pending)
           \<and> (st' = Done \<or> (eof s \<longrightarrow> length (remaining s') < length (remaining s)))"
proof -
  from assms have att: "attached st s" and k: "\<forall>w k. st = Waiting w k \<longrightarrow> k = InRead n"
    and ret: "\<forall>r \<in> set outs. \<exists>b. r = Return b \<and> len b \<le> n"
    and T: "returned outs @ remaining s = T"
    and dn: "(st = Done) = (Return [] \<in> set outs)" "st = Done \<longrightarrow> eof s \<and> remaining s = []"
    by (simp_all add: read_inv_def)
  have le: "len (take (nat n) (remaining s)) \<le> n" using assms(2) by (simp add: len_def)
  have tk: "(take (nat n) (remaining s) = []) = (remaining s = [])"
    using assms(2) by (cases "remaining s") auto
  have sh: "remaining s \<noteq> [] \<Longrightarrow> length (drop (nat n) (remaining s)) < length (remaining s)"
    using assms(2) by (cases "remaining s") auto
  have td: "take (nat n) (remaining s) @ drop (nat n) (remaining s) = remaining s" by simp
  show ?thesis
  proof (cases st)
    case Done
    with assms dn show ?thesis by simp
  next
    case Idle
    note i = attached_idle [OF att [unfolded Idle]]
    show ?thesis
    proof (cases "buffer s \<noteq> [] \<or> eof s")
      case True
      from read_call(1) [OF i assms(2) True] obtain s' where
        r: "read n s = (Return (take (nat n) (remaining s)), s')"
           "took s (drop (nat n) (remaining s)) s'" by blast
      have ne: "remaining s = [] \<Longrightarrow> eof s"
        using True i(1) by (simp add: remaining_empty_iff)
      have T': "returned outs @ take (nat n) (remaining s) @ drop (nat n) (remaining s) = T"
        using T by simp
      show ?thesis
        using r(1) Idle attached_took [OF att i(3) r(2)] took_fields [OF r(2)]
          ret T' dn ne le tk sh
        by (cases "remaining s = []") (auto simp: settle_def read_inv_def)
    next
      case False
      then have f: "buffer s = []" "\<not> eof s" by simp_all
      from read_call(2) [OF i assms(2) f] obtain w s' where
        r: "read n s = (Suspend w (InRead n), s')" "parked s w s'" by blast
      have rem: "remaining s = []" using f(1) by (simp add: remaining_def)
      have p: "futures s' ! w = Pending" using r(2) by (simp add: parked_def)
      show ?thesis
        using r(1) Idle attached_parked [OF att f(2) r(2)] parked_remaining [OF r(2)]
          ret T dn rem f p
        by (auto simp: settle_def read_inv_def)
    qed
  next
    case (Waiting w fr)
    with k have fr: "fr = InRead n" by simp
    note a = att [unfolded Waiting]
    show ?thesis
    proof (cases "futures s ! w = Pending")
      case True
      note p = attached_pending [OF a True]
      from resume_pending [OF p(1) True, of fr] Waiting assms p True show ?thesis
        by (simp add: settle_def)
    next
      case False
      note p = attached_result [OF a False]
      from p(3) obtain v where v: "fut (futures s) w = Result v" by blast
      from read_resume [OF p(1,2) v assms(2)] obtain s' where
        r: "resume (InRead n) w s = (Return (take (nat n) (remaining s)), s')"
           "took s (drop (nat n) (remaining s)) s'" by blast
      have ne: "remaining s = [] \<Longrightarrow> eof s"
        using p(4) p(1) by (simp add: remaining_empty_iff)
      have T': "returned outs @ take (nat n) (remaining s) @ drop (nat n) (remaining s) = T"
        using T by simp
      show ?thesis
        using r(1) Waiting fr attached_took [OF a p(2) r(2)] took_fields [OF r(2)]
          ret T' dn ne le tk sh
        by (cases "remaining s = []") (auto simp: settle_def read_inv_def)
    qed
  qed
qed

lemma read_inv_step:
  assumes "0 < n" "read_inv n T c"
  shows "read_inv n (T @ accepted e (stream_of c)) (loop_step (read n) e c)
         \<and> eof (stream_of (loop_step (read n) e c)) = (eof (stream_of c) \<or> e = FeedEof)"
proof -
  obtain st outs s where c: "c = (st, outs, s)" by (cases c) auto
  from assms(2) have att: "attached st s" and dn: "st = Done \<longrightarrow> eof s \<and> remaining s = []"
    by (simp_all add: read_inv_def c)
  show ?thesis
  proof (cases e)
    case (Feed d)
    from attached_feed_data [OF att, of d] assms(2) dn show ?thesis
      by (auto simp: read_inv_def c Feed accepted_def)
  next
    case FeedEof
    from attached_feed_eof [OF att] assms(2) dn show ?thesis
      by (auto simp: read_inv_def c FeedEof accepted_def)
  next
    case Run
    from read_inv_run [OF assms(2) [unfolded c] assms(1)] show ?thesis
      by (auto simp: c Run accepted_def)
  qed
qed

fun calls_left :: "consumer \<Rightarrow> nat" where
  \<comment> \<open>at EOF, a bound on the calls the consumer still has to make\<close>
  "calls_left (Done, outs, s) = 0"
| "calls_left (st, outs, s) = Suc (length (remaining s))"

lemma calls_left_0: "(calls_left c = 0) = (fst c = Done)"
  by (cases c rule: calls_left.cases) simp_all

lemma calls_left_le: "calls_left (st, outs, s) \<le> Suc (length (remaining s))"
  by (cases st) simp_all

lemma read_left_step:
  assumes "0 < n" "(\<exists>T. read_inv n T c) \<and> eof (stream_of c)"
  shows "((\<exists>T. read_inv n T (loop_step (read n) e c))
            \<and> eof (stream_of (loop_step (read n) e c)))
         \<and> calls_left (loop_step (read n) e c) \<le> calls_left c
         \<and> (e = Run \<longrightarrow> calls_left (loop_step (read n) e c) < calls_left c
                          \<or> calls_left c = 0)"
proof -
  obtain st outs s where c: "c = (st, outs, s)" by (cases c) auto
  from assms(2) obtain T where inv: "read_inv n T c" and e: "eof s" by (auto simp: c)
  then have att: "attached st s" by (simp add: read_inv_def c)
  note st = read_inv_step [OF assms(1) inv, of e]
  show ?thesis
  proof (cases e)
    case (Feed d)
    from attached_feed_data(2) [OF att, of d] st e show ?thesis
      by (cases st) (auto simp: c Feed)
  next
    case FeedEof
    from attached_feed_eof(2) [OF att] st e show ?thesis
      by (cases st) (auto simp: c FeedEof)
  next
    case Run
    from read_inv_run [OF inv [unfolded c] assms(1)] obtain st' outs' s' where
      r: "loop_step (read n) Run (st, outs, s) = (st', outs', s')"
        "read_inv n T (st', outs', s')" "eof s' = eof s"
        "st' = Done \<or> (eof s \<longrightarrow> length (remaining s') < length (remaining s))"
      by blast
    have "calls_left (st', outs', s') < calls_left (st, outs, s)
          \<or> (calls_left (st, outs, s) = 0 \<and> calls_left (st', outs', s') = 0)"
    proof (cases "st = Done")
      case True
      with r(1) show ?thesis by auto
    next
      case False
      then have "calls_left (st, outs, s) = Suc (length (remaining s))" by (cases st) simp_all
      then show ?thesis using r(4) e calls_left_le [of st' outs' s'] by auto
    qed
    then show ?thesis using r e by (auto simp: c Run)
  qed
qed

lemma fed_True [simp]: "fed True es = []"
proof (induction es)
  case Nil
  then show ?case by simp
next
  case (Cons e es)
  then show ?case by (cases e) simp_all
qed

lemma read_inv_start:
  assumes "well_formed s0" "exception s0 = None" "waiter s0 = None" "eof_waiter s0 = None"
  shows "read_inv n (remaining s0) (Idle, [], s0)"
  using assms by (simp add: read_inv_def attached_def)

lemma read_inv_run_loop:
  assumes "0 < n" "read_inv n T c"
  shows "read_inv n (T @ fed (eof (stream_of c)) es) (run_loop (read n) es c)"
    and "eof (stream_of (run_loop (read n) es c)) = (eof (stream_of c) \<or> FeedEof \<in> set es)"
  using run_loop_invariant [where I = "read_inv n" and call = "read n",
      OF read_inv_step [OF assms(1)] assms(2), of es]
  by simp_all

text \<open>
  C7. Take \<open>n > 0\<close>, a reader that is open (no EOF, no stored exception) with its buffer
  in order and nobody waiting on it, and any interleaving \<open>es\<close> of \<open>feed_data\<close> calls,
  \<open>feed_eof\<close> calls and turns of a consumer that calls \<open>read(n)\<close> repeatedly until it
  gets the empty string. Every call that has finished returned at most \<open>n\<close> bytes; at
  every moment the results so far, concatenated, followed by the bytes still in the buffer
  are the bytes that were in the buffer at the start followed by the chunks fed before
  EOF; a call waits only while the buffer is empty and EOF has not been signalled: after a
  turn of the consumer a call is still waiting only if its future is pending, nothing is
  buffered and there was no EOF; a call suspends at once exactly when the buffer is empty
  (EOF not being signalled), and a call whose future has got its result returns from its
  resumption, the first \<open>n\<close> buffered bytes, without suspending again; the consumer gets
  the empty string only after EOF, when the results are the whole stream, and once
  \<open>feed_eof\<close> was called it gets there within as many turns as the stream has bytes,
  plus one; \<open>read(0)\<close> returns the empty string at once.
\<close>

theorem read_at_most_n_and_reconstructs:
  assumes "well_formed s0" "exception s0 = None" "\<not> eof s0" "waiter s0 = None"
    "eof_waiter s0 = None" "0 < n"
    and "run_loop (read n) es (Idle, [], s0) = (st, outs, s)"
  shows "(\<forall>r \<in> set outs. \<exists>b. r = Return b \<and> len b \<le> n)
       \<and> returned outs @ remaining s = remaining s0 @ fed False es
       \<and> eof s = (FeedEof \<in> set es)
       \<and> (\<forall>w k. st = Waiting w k \<longrightarrow> k = InRead n)
       \<and> (es \<noteq> [] \<and> last es = Run \<longrightarrow>
            (\<forall>w k. st = Waiting w k \<longrightarrow>
               remaining s = [] \<and> \<not> eof s \<and> futures s ! w = Pending))
       \<and> (st = Done) = (Return [] \<in> set outs)
       \<and> (st = Done \<longrightarrow> eof s \<and> returned outs = remaining s0 @ fed False es)
       \<and> (\<forall>pre post. es = pre @ FeedEof # post
              \<and> length (remaining s0 @ fed False es) < turns post \<longrightarrow> st = Done)
       \<and> ((\<exists>w k s'. read n s0 = (Suspend w k, s')) = (buffer s0 = []))
       \<and> (\<forall>t w v. well_formed t \<and> waiter t = None \<and> fut (futures t) w = Result v \<longrightarrow>
              (\<exists>t'. resume (InRead n) w t = (Return (take (nat n) (remaining t)), t')))
       \<and> (\<exists>s'. read 0 s0 = (Return [], s'))"
proof -
  let ?c0 = "(Idle, [], s0) :: consumer"
  let ?T = "remaining s0 @ fed False es"
  note i0 = read_inv_start [OF assms(1,2,4,5), of n]
  from read_inv_run_loop [OF assms(6) i0, of es] assms(3,7)
  have inv: "read_inv n ?T (st, outs, s)" and e: "eof s = (FeedEof \<in> set es)"
    by simp_all
  from inv have p: "\<forall>r \<in> set outs. \<exists>b. r = Return b \<and> len b \<le> n"
      "returned outs @ remaining s = ?T" "\<forall>w k. st = Waiting w k \<longrightarrow> k = InRead n"
      "(st = Done) = (Return [] \<in> set outs)" "st = Done \<longrightarrow> eof s \<and> remaining s = []"
    by (simp_all add: read_inv_def)
  have d: "st = Done \<longrightarrow> eof s \<and> returned outs = ?T" using p(2,5) by auto
  have last: "\<forall>w k. st = Waiting w k \<longrightarrow>
                remaining s = [] \<and> \<not> eof s \<and> futures s ! w = Pending"
    if "es \<noteq> []" "last es = Run"
  proof -
    from append_butlast_last_id [OF that(1)] that(2)
    have "es = butlast es @ [Run]" by simp
    then obtain es' where es: "es = es' @ [Run]" ..
    obtain st1 outs1 s1 where c1: "run_loop (read n) es' ?c0 = (st1, outs1, s1)"
      by (cases "run_loop (read n) es' ?c0") auto
    from read_inv_run_loop(1) [OF assms(6) i0, of es'] c1
    have "\<exists>T. read_inv n T (st1, outs1, s1)" by auto
    then obtain T1 where i1: "read_inv n T1 (st1, outs1, s1)" ..
    from read_inv_run [OF i1 assms(6)] assms(7) c1
    show ?thesis by (auto simp: es run_loop_snoc)
  qed
  have ends: "st = Done"
    if "es = pre @ FeedEof # post" "length ?T < turns post" for pre post
  proof -
    let ?c1 = "loop_step (read n) FeedEof (run_loop (read n) pre ?c0)"
    obtain st1 outs1 s1 where c1: "?c1 = (st1, outs1, s1)" by (cases ?c1) auto
    from read_inv_run_loop(1) [OF assms(6) i0, of pre]
    have "\<exists>T. read_inv n T (run_loop (read n) pre ?c0)" by auto
    then obtain T0 where "read_inv n T0 (run_loop (read n) pre ?c0)" ..
    from read_inv_step [OF assms(6) this, of FeedEof] obtain T1 where
      i1: "read_inv n T1 ?c1" and e1: "eof (stream_of ?c1)" by auto
    have r: "run_loop (read n) es ?c0 = run_loop (read n) post ?c1"
      by (simp add: that(1) run_loop_append)
    from read_inv_run_loop(1) [OF assms(6) i1, of post] e1 r assms(7)
    have "read_inv n T1 (st, outs, s)" by simp
    then have "returned outs @ remaining s = T1" by (simp add: read_inv_def)
    with p(2) have T1: "T1 = ?T" by simp
    from i1 have "returned outs1 @ remaining s1 = T1" by (simp add: read_inv_def c1)
    then have "length (remaining s1) \<le> length ?T" using T1 by (metis length_append le_add2)
    then have b: "calls_left ?c1 \<le> Suc (length ?T)"
      using calls_left_le [of st1 outs1 s1] by (simp add: c1)
    have j: "(\<exists>T. read_inv n T ?c1) \<and> eof (stream_of ?c1)" using i1 e1 by blast
    from run_loop_potential [where J = "\<lambda>c. (\<exists>T. read_inv n T c) \<and> eof (stream_of c)"
        and pot = calls_left and call = "read n", OF read_left_step [OF assms(6)] j, of post]
      b that(2)
    have "calls_left (run_loop (read n) post ?c1) = 0" by simp
    then have "calls_left (st, outs, s) = 0" using r assms(7) by simp
    then show ?thesis by (simp add: calls_left_0)
  qed
  have susp: "(\<exists>w k s'. read n s0 = (Suspend w k, s')) = (buffer s0 = [])"
    using read_suspends_iff(1) [OF assms(1,2,6)] assms(3,4) by simp
  have res: "\<exists>t'. resume (InRead n) w t = (Return (take (nat n) (remaining t)), t')"
    if "well_formed t \<and> waiter t = None \<and> fut (futures t) w = Result v" for t w v
  proof -
    from that have h: "well_formed t" "waiter t = None" "fut (futures t) w = Result v"
      by simp_all
    from read_resume [OF h assms(6)] show ?thesis by blast
  qed
  have zero: "\<exists>s'. read 0 s0 = (Return [], s')"
    using assms(2) decorated_Return [of "[]" s0] by (auto simp: read_def sr_read_def)
  show ?thesis
    apply (intro conjI)
    subgoal by (rule p(1))
    subgoal by (rule p(2))
    subgoal by (rule e)
    subgoal by (rule p(3))
    subgoal using last by blast
    subgoal by (rule p(4))
    subgoal by (rule d)
    subgoal using ends by blast
    subgoal by (rule susp)
    subgoal using res by blast
    subgoal by (rule zero)
    done
qed

definition read_events :: "event list" where
  "read_events = [Run, Feed ''abc'', Run, Feed ''de'', FeedEof, Run, Run, Run]"

lemma ex_read_loop:
  "fst (run_loop (read 2) read_events (Idle, [], StreamReader_init 10)) = Done"
  "fst (snd (run_loop (read 2) read_events (Idle, [], StreamReader_init 10)))
     = [Return ''ab'', Return ''cd'', Return ''e'', Return []]"
  "fed False read_events = ''abcde''"
  "fst (run_loop (read 2) (take 1 read_events) (Idle, [], StreamReader_init 10))
     = Waiting 0 (InRead 2)"
  by code_simp+

theorem read_at_most_n_and_reconstructs_witness:
  "well_formed (StreamReader_init 10) \<and> exception (StreamReader_init 10) = None
   \<and> \<not> eof (StreamReader_init 10) \<and> waiter (StreamReader_init 10) = None
   \<and> eof_waiter (StreamReader_init 10) = None \<and> (0::int) < 2
   \<and> fst (run_loop (read 2) read_events (Idle, [], StreamReader_init 10)) = Done
   \<and> fst (snd (run_loop (read 2) read_events (Idle, [], StreamReader_init 10)))
        = [Return ''ab'', Return ''cd'', Return ''e'', Return []]
   \<and> returned [Return ''ab'', Return ''cd'', Return ''e'', Return []] = ''abcde''
   \<and> fed False read_events = ''abcde''
   \<and> eof (snd (snd (run_loop (read 2) read_events (Idle, [], StreamReader_init 10))))
   \<and> (\<exists>w k s'. read 2 (StreamReader_init 10) = (Suspend w k, s'))
   \<and> (\<exists>s'. read 0 (StreamReader_init 10) = (Return [], s'))"
proof -
  let ?r = "run_loop (read 2) read_events (Idle, [], StreamReader_init 10)"
  have r: "?r = (fst ?r, fst (snd ?r), snd (snd ?r))" by simp
  have n: "(0::int) < 2" by simp
  note t = read_at_most_n_and_reconstructs
    [OF ex_fresh_ok(1) ex_fresh_ok(4) ex_fresh_ok(3) ex_fresh_empty(2) ex_fresh_eof_waiter n r]
  from t have a: "fst ?r = Done \<longrightarrow> eof (snd (snd ?r))
          \<and> returned (fst (snd ?r)) = remaining (StreamReader_init 10) @ fed False read_events"
    by blast
  from t have b: "(\<exists>w k s'. read 2 (StreamReader_init 10) = (Suspend w k, s'))
                  = (buffer (StreamReader_init 10) = [])"
    by blast
  from t have c: "\<exists>s'. read 0 (StreamReader_init 10) = (Return [], s')" by blast
  from a b c ex_read_loop ex_fresh_ok ex_fresh_empty ex_fresh_eof_waiter show ?thesis
    by simp
qed

text \<open>\<open>readexactly\<close>: its loop entered with \<open>m > 0\<close> bytes still to collect.\<close>

lemma took_ready:
  assumes "took s rest s'" "exception s = None" "waiter s = None"
  shows "well_formed s'" "exception s' = None" "waiter s' = None" "remaining s' = rest"
    "eof s' = eof s"
  using assms by (simp_all add: took_def)

lemma readexactly_loop_took:
  assumes "well_formed s" "exception s = None" "waiter s = None" "0 < m"
  shows "m \<le> len (remaining s) \<Longrightarrow>
           \<exists>s'. readexactly_loop bl m s
                  = (Return (concat bl @ take (nat m) (remaining s)), s')
              \<and> took s (drop (nat m) (remaining s)) s'"
    and "len (remaining s) < m \<Longrightarrow> eof s \<Longrightarrow>
           \<exists>s'. readexactly_loop bl m s
                  = (Raise (IncompleteReadError (concat bl @ remaining s)
                             (len (concat bl @ remaining s) + (m - len (remaining s)))), s')
              \<and> took s [] s'"
    and "len (remaining s) < m \<Longrightarrow> \<not> eof s \<Longrightarrow>
           \<exists>bl' w s'. readexactly_loop bl m s
                  = (Suspend w (InReadexactly bl' (m - len (remaining s))), s')
              \<and> concat bl' = concat bl @ remaining s \<and> parked s w s'"
proof -
  have empty_eof: "\<exists>t'. readexactly_loop b k t
            = (Raise (IncompleteReadError (concat b) (len (concat b) + k)), t')
          \<and> took t [] t'"
    if "well_formed t" "exception t = None" "waiter t = None" "0 < k" "remaining t = []" "eof t"
    for t b k
  proof -
    from read_call(1) [OF that(1,2,3,4)] that(5,6) obtain t' where
      "read k t = (Return [], t')" "took t [] t'" by auto
    then show ?thesis using that(4) by simp
  qed
  have empty_wait: "\<exists>w t'. readexactly_loop b k t = (Suspend w (InReadexactly b k), t')
          \<and> parked t w t'"
    if "well_formed t" "exception t = None" "waiter t = None" "0 < k" "remaining t = []"
      "\<not> eof t"
    for t b k
  proof -
    have "buffer t = []" using that(1,5) by (simp add: remaining_empty_iff)
    from read_call(2) [OF that(1,2,3,4) this that(6)] obtain w t' where
      "read k t = (Suspend w (InRead k), t')" "parked t w t'" by blast
    then show ?thesis using that(4) by simp
  qed
  have some: "\<exists>s1. read m s = (Return (take (nat m) (remaining s)), s1)
                \<and> took s (drop (nat m) (remaining s)) s1"
    if "remaining s \<noteq> []"
  proof -
    have "buffer s \<noteq> []" using that assms(1) by (simp add: remaining_empty_iff)
    with read_call(1) [OF assms] show ?thesis by blast
  qed
  show "\<exists>s'. readexactly_loop bl m s
                  = (Return (concat bl @ take (nat m) (remaining s)), s')
              \<and> took s (drop (nat m) (remaining s)) s'"
    if ge: "m \<le> len (remaining s)"
  proof -
    have "remaining s \<noteq> []" using ge assms(4) by (auto simp: len_def)
    from some [OF this] obtain s1 where
      s1: "read m s = (Return (take (nat m) (remaining s)), s1)"
          "took s (drop (nat m) (remaining s)) s1" by blast
    have l: "len (take (nat m) (remaining s)) = m" using ge assms(4) by (simp add: len_def)
    then have "take (nat m) (remaining s) \<noteq> []" using assms(4) by (auto simp: len_def)
    with s1 l assms(4) show ?thesis by simp
  qed
  show "\<exists>s'. readexactly_loop bl m s
                  = (Raise (IncompleteReadError (concat bl @ remaining s)
                             (len (concat bl @ remaining s) + (m - len (remaining s)))), s')
              \<and> took s [] s'"
    if lt: "len (remaining s) < m" and e: "eof s"
  proof (cases "remaining s = []")
    case True
    with empty_eof [OF assms True e, of bl] show ?thesis
      by (auto simp: len_def simp del: readexactly_loop.simps)
  next
    case False
    from some [OF False] obtain s1 where
      s1: "read m s = (Return (take (nat m) (remaining s)), s1)"
          "took s (drop (nat m) (remaining s)) s1" by blast
    have t: "take (nat m) (remaining s) = remaining s" "drop (nat m) (remaining s) = []"
      using lt by (simp_all add: len_def)
    note r1 = took_ready [OF s1(2) assms(2,3)]
    have m1: "0 < m - len (remaining s)" using lt by simp
    from empty_eof [OF r1(1,2,3) m1, of "bl @ [remaining s]"] r1(4,5) t e obtain s2 where
      s2: "readexactly_loop (bl @ [remaining s]) (m - len (remaining s)) s1
            = (Raise (IncompleteReadError (concat (bl @ [remaining s]))
                 (len (concat (bl @ [remaining s])) + (m - len (remaining s)))), s2)"
          "took s1 [] s2" by auto
    from took_trans [OF s1(2) s2(2)] s1(1) s2(1) t False assms(4) show ?thesis by simp
  qed
  show "\<exists>bl' w s'. readexactly_loop bl m s
                  = (Suspend w (InReadexactly bl' (m - len (remaining s))), s')
              \<and> concat bl' = concat bl @ remaining s \<and> parked s w s'"
    if lt: "len (remaining s) < m" and e: "\<not> eof s"
  proof (cases "remaining s = []")
    case True
    with empty_wait [OF assms True e, of bl] show ?thesis
      by (auto simp: len_def simp del: readexactly_loop.simps)
  next
    case False
    from some [OF False] obtain s1 where
      s1: "read m s = (Return (take (nat m) (remaining s)), s1)"
          "took s (drop (nat m) (remaining s)) s1" by blast
    have t: "take (nat m) (remaining s) = remaining s" "drop (nat m) (remaining s) = []"
      using lt by (simp_all add: len_def)
    note r1 = took_ready [OF s1(2) assms(2,3)]
    have m1: "0 < m - len (remaining s)" using lt by simp
    from empty_wait [OF r1(1,2,3) m1, of "bl @ [remaining s]"] r1(4,5) t e obtain w s2 where
      s2: "readexactly_loop (bl @ [remaining s]) (m - len (remaining s)) s1
            = (Suspend w (InReadexactly (bl @ [remaining s]) (m - len (remaining s))), s2)"
          "parked s1 w s2" by auto
    from took_parked [OF s1(2) s2(2)] s1(1) s2(1) t False assms(4) show ?thesis by auto
  qed
qed

lemma sr_read_ready_eq:
  assumes "exception s = None" "0 < m" "buffer s \<noteq> [] \<or> eof s"
  shows "read m s = decorated (priv_read_nowait m s)"
  using assms by (auto simp: read_def sr_read_def)

lemma readexactly_loop_cont:
  "0 < m \<Longrightarrow> readexactly_loop bl m s = readexactly_cont bl m (read m s)"
  by (subst readexactly_loop.simps)
     (simp add: readexactly_cont_def split: prod.splits outcome.splits)

lemma resume_readexactly_eq:
  assumes "exception s = None" "waiter s = None" "fut (futures s) w = Result v" "0 < m"
    "buffer s \<noteq> [] \<or> eof s"
  shows "resume (InReadexactly bl m) w s = decorated (readexactly_loop bl m s)"
  using assms
  by (simp add: resume_def wait_resume_def waiter_None_id readexactly_loop_cont
        sr_read_ready_eq del: readexactly_loop.simps)

lemma readexactly_eq_loop:
  "exception s = None \<Longrightarrow> readexactly n s = decorated (readexactly_loop [] n s)"
  by (simp add: readexactly_def sr_readexactly_def)

text \<open>The same seen through the decorator.\<close>

lemma decorated_readexactly_loop:
  assumes "well_formed s" "exception s = None" "waiter s = None" "0 < m"
  shows "m \<le> len (remaining s) \<Longrightarrow>
           \<exists>s'. decorated (readexactly_loop bl m s)
                  = (Return (concat bl @ take (nat m) (remaining s)), s')
              \<and> took s (drop (nat m) (remaining s)) s'"
    and "len (remaining s) < m \<Longrightarrow> eof s \<Longrightarrow>
           \<exists>s'. decorated (readexactly_loop bl m s)
                  = (Raise (IncompleteReadError (concat bl @ remaining s)
                             (len (concat bl @ remaining s) + (m - len (remaining s)))), s')
              \<and> took s [] s'"
    and "len (remaining s) < m \<Longrightarrow> \<not> eof s \<Longrightarrow>
           \<exists>bl' w s'. decorated (readexactly_loop bl m s)
                  = (Suspend w (InReadexactly bl' (m - len (remaining s))), s')
              \<and> concat bl' = concat bl @ remaining s \<and> parked s w s'"
proof -
  note l = readexactly_loop_took [OF assms, of bl]
  show "\<exists>s'. decorated (readexactly_loop bl m s)
                  = (Return (concat bl @ take (nat m) (remaining s)), s')
              \<and> took s (drop (nat m) (remaining s)) s'"
    if "m \<le> len (remaining s)"
  proof -
    from l(1) [OF that] obtain s1 where
      s1: "readexactly_loop bl m s = (Return (concat bl @ take (nat m) (remaining s)), s1)"
          "took s (drop (nat m) (remaining s)) s1" by blast
    from decorated_took [OF s1(2), of "concat bl @ take (nat m) (remaining s)"] s1(1)
    show ?thesis by simp
  qed
  show "\<exists>s'. decorated (readexactly_loop bl m s)
                  = (Raise (IncompleteReadError (concat bl @ remaining s)
                             (len (concat bl @ remaining s) + (m - len (remaining s)))), s')
              \<and> took s [] s'"
    if "len (remaining s) < m" "eof s"
    using l(2) [OF that] by auto
  show "\<exists>bl' w s'. decorated (readexactly_loop bl m s)
                  = (Suspend w (InReadexactly bl' (m - len (remaining s))), s')
              \<and> concat bl' = concat bl @ remaining s \<and> parked s w s'"
    if "len (remaining s) < m" "\<not> eof s"
    using l(3) [OF that] by auto
qed

text \<open>The loop around \<open>readexactly(n)\<close>, \<open>n > 0\<close>; it ends when the call raises.\<close>

definition readexactly_inv :: "int \<Rightarrow> bytes \<Rightarrow> consumer \<Rightarrow> bool" where
  "readexactly_inv n T c =
     (case c of (st, outs, s) \<Rightarrow>
        attached st s
        \<and> (\<forall>w k. st = Waiting w k \<longrightarrow>
              (\<exists>bl m. k = InReadexactly bl m \<and> 0 < m \<and> len (concat bl) + m = n))
        \<and> returned outs @ collected st @ remaining s = T
        \<and> (st \<noteq> Done \<longrightarrow> (\<forall>r \<in> set outs. \<exists>b. r = Return b \<and> len b = n))
        \<and> (st = Done \<longrightarrow> eof s \<and> remaining s = []
              \<and> (\<exists>outs' p. outs = outs' @ [Raise (IncompleteReadError p n)] \<and> len p < n
                    \<and> (\<forall>r \<in> set outs'. \<exists>b. r = Return b \<and> len b = n))))"

lemma len_append [simp]: "len (xs @ ys) = len xs + len ys"
  by (simp add: len_def)

lemma len_Nil [simp]: "len [] = 0"
  by (simp add: len_def)

lemma readexactly_settle:
  assumes att: "attached st0 s" and w: "waiter s = None" and m: "0 < m"
    and n: "len (concat bl) + m = n"
    and outs: "\<forall>r \<in> set outs. \<exists>b. r = Return b \<and> len b = n"
    and T: "returned outs @ concat bl @ remaining s = T"
  shows "\<exists>st' outs' s'. settle outs (decorated (readexactly_loop bl m s)) = (st', outs', s')
           \<and> readexactly_inv n T (st', outs', s') \<and> eof s' = eof s
           \<and> (\<forall>w k. st' = Waiting w k \<longrightarrow>
                 remaining s' = [] \<and> \<not> eof s' \<and> futures s' ! w = Pending)
           \<and> (st' = Done \<or> (eof s \<longrightarrow> length (remaining s') < length (remaining s)))"
proof -
  have wf: "well_formed s" and ex: "exception s = None"
    using att by (simp_all add: attached_def)
  note d = decorated_readexactly_loop [OF wf ex w m, of bl]
  have np: "0 < n" using n m by (simp add: len_def)
  consider (enough) "m \<le> len (remaining s)"
    | (short_eof) "len (remaining s) < m" "eof s"
    | (short) "len (remaining s) < m" "\<not> eof s"
    by fastforce
  then show ?thesis
  proof cases
    case enough
    let ?b = "concat bl @ take (nat m) (remaining s)"
    from d(1) [OF enough] obtain s' where
      r: "decorated (readexactly_loop bl m s) = (Return ?b, s')"
         "took s (drop (nat m) (remaining s)) s'" by blast
    have l: "len ?b = n" using enough m n by (simp add: len_def)
    then have ne: "?b \<noteq> []" using np by (auto simp: len_def)
    have T': "returned outs @ ?b @ drop (nat m) (remaining s) = T" using T by simp
    have sh: "length (drop (nat m) (remaining s)) < length (remaining s)"
      using enough m by (cases "remaining s") (auto simp: len_def)
    show ?thesis
      using r(1) ne l attached_took(1) [OF att w r(2)] took_fields [OF r(2)] outs T' sh
      by (simp add: settle_def readexactly_inv_def)
  next
    case short_eof
    let ?p = "concat bl @ remaining s"
    from d(2) [OF short_eof] obtain s' where
      r: "decorated (readexactly_loop bl m s)
            = (Raise (IncompleteReadError ?p (len ?p + (m - len (remaining s)))), s')"
         "took s [] s'" by blast
    have e: "len ?p + (m - len (remaining s)) = n" using n by simp
    have l: "len ?p < n" using short_eof(1) n by simp
    show ?thesis
      using r(1) e l attached_took(2) [OF att w r(2)] took_fields [OF r(2)] outs T short_eof(2)
      by (simp add: settle_def readexactly_inv_def)
  next
    case short
    from d(3) [OF short] obtain bl' x s' where
      r: "decorated (readexactly_loop bl m s)
            = (Suspend x (InReadexactly bl' (m - len (remaining s))), s')"
         "concat bl' = concat bl @ remaining s" "parked s x s'" by blast
    have f: "0 < m - len (remaining s)" "len (concat bl') + (m - len (remaining s)) = n"
      using short(1) n r(2) by simp_all
    have p: "futures s' ! x = Pending" using r(3) by (simp add: parked_def)
    show ?thesis
      using r(1,2) f p attached_parked [OF att short(2) r(3)] parked_remaining [OF r(3)]
        outs T short(2)
      by (simp add: settle_def readexactly_inv_def)
  qed
qed

lemma readexactly_inv_run:
  assumes "readexactly_inv n T (st, outs, s)" "0 < n"
  shows "\<exists>st' outs' s'. loop_step (readexactly n) Run (st, outs, s) = (st', outs', s')
           \<and> readexactly_inv n T (st', outs', s') \<and> eof s' = eof s
           \<and> (\<forall>w k. st' = Waiting w k \<longrightarrow>
                 remaining s' = [] \<and> \<not> eof s' \<and> futures s' ! w = Pending)
           \<and> (st' = Done \<or> (eof s \<longrightarrow> length (remaining s') < length (remaining s)))"
proof -
  from assms(1) have att: "attached st s"
    and k: "\<forall>w k. st = Waiting w k \<longrightarrow>
              (\<exists>bl m. k = InReadexactly bl m \<and> 0 < m \<and> len (concat bl) + m = n)"
    and T: "returned outs @ collected st @ remaining s = T"
    and ret: "st \<noteq> Done \<longrightarrow> (\<forall>r \<in> set outs. \<exists>b. r = Return b \<and> len b = n)"
    by (simp_all add: readexactly_inv_def)
  show ?thesis
  proof (cases st)
    case Done
    with assms(1) show ?thesis by simp
  next
    case Idle
    note i = attached_idle [OF att [unfolded Idle]]
    have n0: "len (concat ([] :: bytes list)) + n = n" by simp
    from readexactly_settle [OF att i(3) assms(2) n0, of outs T] ret T Idle
      readexactly_eq_loop [OF i(2), of n]
    show ?thesis by simp
  next
    case (Waiting w fr)
    with k obtain bl m where fr: "fr = InReadexactly bl m" "0 < m" "len (concat bl) + m = n"
      by auto
    note a = att [unfolded Waiting]
    show ?thesis
    proof (cases "futures s ! w = Pending")
      case True
      note p = attached_pending [OF a True]
      from resume_pending [OF p(1) True, of fr] Waiting assms(1) p True show ?thesis
        by (simp add: settle_def)
    next
      case False
      note p = attached_result [OF a False]
      from p(3) obtain v where v: "fut (futures s) w = Result v" by blast
      note e = resume_readexactly_eq [OF p(5) p(2) v fr(2) p(4), of bl]
      from readexactly_settle [OF att p(2) fr(2,3), of outs T] ret T Waiting fr(1) e
      show ?thesis by simp
    qed
  qed
qed

lemma readexactly_inv_step:
  assumes "0 < n" "readexactly_inv n T c"
  shows "readexactly_inv n (T @ accepted e (stream_of c)) (loop_step (readexactly n) e c)
         \<and> eof (stream_of (loop_step (readexactly n) e c)) = (eof (stream_of c) \<or> e = FeedEof)"
proof -
  obtain st outs s where c: "c = (st, outs, s)" by (cases c) auto
  from assms(2) have att: "attached st s" and dn: "st = Done \<longrightarrow> eof s \<and> remaining s = []"
    by (simp_all add: readexactly_inv_def c)
  show ?thesis
  proof (cases e)
    case (Feed d)
    from attached_feed_data [OF att, of d] assms(2) dn show ?thesis
      by (auto simp: readexactly_inv_def c Feed accepted_def)
  next
    case FeedEof
    from attached_feed_eof [OF att] assms(2) dn show ?thesis
      by (auto simp: readexactly_inv_def c FeedEof accepted_def)
  next
    case Run
    from readexactly_inv_run [OF assms(2) [unfolded c] assms(1)] show ?thesis
      by (auto simp: c Run accepted_def)
  qed
qed

lemma readexactly_left_step:
  assumes "0 < n" "(\<exists>T. readexactly_inv n T c) \<and> eof (stream_of c)"
  shows "((\<exists>T. readexactly_inv n T (loop_step (readexactly n) e c))
            \<and> eof (stream_of (loop_step (readexactly n) e c)))
         \<and> calls_left (loop_step (readexactly n) e c) \<le> calls_left c
         \<and> (e = Run \<longrightarrow> calls_left (loop_step (readexactly n) e c) < calls_left c
                          \<or> calls_left c = 0)"
proof -
  obtain st outs s where c: "c = (st, outs, s)" by (cases c) auto
  from assms(2) obtain T where inv: "readexactly_inv n T c" and e: "eof s" by (auto simp: c)
  then have att: "attached st s" by (simp add: readexactly_inv_def c)
  note st = readexactly_inv_step [OF assms(1) inv, of e]
  show ?thesis
  proof (cases e)
    case (Feed d)
    from attached_feed_data(2) [OF att, of d] st e show ?thesis
      by (cases st) (auto simp: c Feed)
  next
    case FeedEof
    from attached_feed_eof(2) [OF att] st e show ?thesis
      by (cases st) (auto simp: c FeedEof)
  next
    case Run
    from readexactly_inv_run [OF inv [unfolded c] assms(1)] obtain st' outs' s' where
      r: "loop_step (readexactly n) Run (st, outs, s) = (st', outs', s')"
        "readexactly_inv n T (st', outs', s')" "eof s' = eof s"
        "st' = Done \<or> (eof s \<longrightarrow> length (remaining s') < length (remaining s))"
      by blast
    have "calls_left (st', outs', s') < calls_left (st, outs, s)
          \<or> (calls_left (st, outs, s) = 0 \<and> calls_left (st', outs', s') = 0)"
    proof (cases "st = Done")
      case True
      with r(1) show ?thesis by auto
    next
      case False
      then have "calls_left (st, outs, s) = Suc (length (remaining s))" by (cases st) simp_all
      then show ?thesis using r(4) e calls_left_le [of st' outs' s'] by auto
    qed
    then show ?thesis using r e by (auto simp: c Run)
  qed
qed

lemma readexactly_inv_start:
  assumes "well_formed s0" "exception s0 = None" "waiter s0 = None" "eof_waiter s0 = None"
  shows "readexactly_inv n (remaining s0) (Idle, [], s0)"
  using assms by (simp add: readexactly_inv_def attached_def)

lemma readexactly_inv_run_loop:
  assumes "0 < n" "readexactly_inv n T c"
  shows "readexactly_inv n (T @ fed (eof (stream_of c)) es) (run_loop (readexactly n) es c)"
    and "eof (stream_of (run_loop (readexactly n) es c))
           = (eof (stream_of c) \<or> FeedEof \<in> set es)"
  using run_loop_invariant [where I = "readexactly_inv n" and call = "readexactly n",
      OF readexactly_inv_step [OF assms(1)] assms(2), of es]
  by simp_all

text \<open>
  C8. Take \<open>n > 0\<close>, a reader that is open (no EOF, no stored exception) with its buffer
  in order and nobody waiting on it, and any interleaving \<open>es\<close> of \<open>feed_data\<close> calls,
  \<open>feed_eof\<close> calls and turns of a consumer that calls \<open>readexactly(n)\<close> repeatedly
  until a call raises. At every moment the results so far, then the bytes the waiting
  call has collected, then the bytes still in the buffer are the bytes that were in the
  buffer at the start followed by the chunks fed before EOF. As long as no call has
  raised, every result is exactly \<open>n\<close> bytes, so the results are the successive blocks
  of \<open>n\<close> bytes of the stream. A call raises only after EOF, when nothing is left in the
  buffer, and what it raises is \<open>IncompleteReadError\<close> with \<open>partial\<close> the fewer than
  \<open>n\<close> bytes that followed the last full block and with the expected count \<open>n\<close>, the
  length of \<open>partial\<close> plus the bytes still missing. A waiting call has collected
  fewer than \<open>n\<close> bytes and remembers how many are missing; after a turn of the consumer
  a call is still waiting only if its future is pending, nothing is buffered and there
  was no EOF, so a call for which \<open>n\<close> bytes have arrived has returned them. Once
  \<open>feed_eof\<close> was called the consumer gets its error within as many turns as the stream
  has bytes, plus one.
\<close>

theorem readexactly_exact_or_incomplete:
  assumes "well_formed s0" "exception s0 = None" "\<not> eof s0" "waiter s0 = None"
    "eof_waiter s0 = None" "0 < n"
    and "run_loop (readexactly n) es (Idle, [], s0) = (st, outs, s)"
  shows "returned outs @ collected st @ remaining s = remaining s0 @ fed False es
       \<and> eof s = (FeedEof \<in> set es)
       \<and> (st \<noteq> Done \<longrightarrow> (\<forall>r \<in> set outs. \<exists>b. r = Return b \<and> len b = n))
       \<and> (st = Done \<longrightarrow> eof s \<and> remaining s = []
             \<and> (\<exists>outs' p. outs = outs' @ [Raise (IncompleteReadError p n)] \<and> len p < n
                   \<and> n = len p + (n - len p)
                   \<and> (\<forall>r \<in> set outs'. \<exists>b. r = Return b \<and> len b = n)
                   \<and> returned outs' @ p = remaining s0 @ fed False es))
       \<and> (\<forall>w k. st = Waiting w k \<longrightarrow>
             (\<exists>bl m. k = InReadexactly bl m \<and> 0 < m \<and> len (concat bl) + m = n))
       \<and> (es \<noteq> [] \<and> last es = Run \<longrightarrow>
            (\<forall>w k. st = Waiting w k \<longrightarrow>
               remaining s = [] \<and> \<not> eof s \<and> futures s ! w = Pending))
       \<and> (\<forall>pre post. es = pre @ FeedEof # post
              \<and> length (remaining s0 @ fed False es) < turns post \<longrightarrow> st = Done)"
proof -
  let ?c0 = "(Idle, [], s0) :: consumer"
  let ?T = "remaining s0 @ fed False es"
  let ?call = "readexactly n"
  note i0 = readexactly_inv_start [OF assms(1,2,4,5), of n]
  from readexactly_inv_run_loop [OF assms(6) i0, of es] assms(3,7)
  have inv: "readexactly_inv n ?T (st, outs, s)" and e: "eof s = (FeedEof \<in> set es)"
    by simp_all
  from inv have p: "returned outs @ collected st @ remaining s = ?T"
      "st \<noteq> Done \<longrightarrow> (\<forall>r \<in> set outs. \<exists>b. r = Return b \<and> len b = n)"
      "\<forall>w k. st = Waiting w k \<longrightarrow>
             (\<exists>bl m. k = InReadexactly bl m \<and> 0 < m \<and> len (concat bl) + m = n)"
      "st = Done \<longrightarrow> eof s \<and> remaining s = []
             \<and> (\<exists>outs' p. outs = outs' @ [Raise (IncompleteReadError p n)] \<and> len p < n
                   \<and> (\<forall>r \<in> set outs'. \<exists>b. r = Return b \<and> len b = n))"
    by (simp_all add: readexactly_inv_def)
  have d: "st = Done \<longrightarrow> eof s \<and> remaining s = []
             \<and> (\<exists>outs' p. outs = outs' @ [Raise (IncompleteReadError p n)] \<and> len p < n
                   \<and> n = len p + (n - len p)
                   \<and> (\<forall>r \<in> set outs'. \<exists>b. r = Return b \<and> len b = n)
                   \<and> returned outs' @ p = ?T)"
  proof
    assume dn: "st = Done"
    with p(4) obtain outs' q where
      o: "outs = outs' @ [Raise (IncompleteReadError q n)]" "len q < n"
         "\<forall>r \<in> set outs'. \<exists>b. r = Return b \<and> len b = n"
      and es: "eof s" "remaining s = []" by blast
    have "returned outs' @ q = ?T" using p(1) dn o(1) es(2) by simp
    with o es show "eof s \<and> remaining s = []
             \<and> (\<exists>outs' p. outs = outs' @ [Raise (IncompleteReadError p n)] \<and> len p < n
                   \<and> n = len p + (n - len p)
                   \<and> (\<forall>r \<in> set outs'. \<exists>b. r = Return b \<and> len b = n)
                   \<and> returned outs' @ p = ?T)"
      by auto
  qed
  have last: "\<forall>w k. st = Waiting w k \<longrightarrow>
                remaining s = [] \<and> \<not> eof s \<and> futures s ! w = Pending"
    if "es \<noteq> []" "last es = Run"
  proof -
    from append_butlast_last_id [OF that(1)] that(2)
    have "es = butlast es @ [Run]" by simp
    then obtain es' where es: "es = es' @ [Run]" ..
    obtain st1 outs1 s1 where c1: "run_loop ?call es' ?c0 = (st1, outs1, s1)"
      by (cases "run_loop ?call es' ?c0") auto
    from readexactly_inv_run_loop(1) [OF assms(6) i0, of es'] c1
    have "\<exists>T. readexactly_inv n T (st1, outs1, s1)" by auto
    then obtain T1 where i1: "readexactly_inv n T1 (st1, outs1, s1)" ..
    from readexactly_inv_run [OF i1 assms(6)] assms(7) c1
    show ?thesis by (auto simp: es run_loop_snoc)
  qed
  have ends: "st = Done"
    if "es = pre @ FeedEof # post" "length ?T < turns post" for pre post
  proof -
    let ?c1 = "loop_step ?call FeedEof (run_loop ?call pre ?c0)"
    obtain st1 outs1 s1 where c1: "?c1 = (st1, outs1, s1)" by (cases ?c1) auto
    from readexactly_inv_run_loop(1) [OF assms(6) i0, of pre]
    have "\<exists>T. readexactly_inv n T (run_loop ?call pre ?c0)" by auto
    then obtain T0 where "readexactly_inv n T0 (run_loop ?call pre ?c0)" ..
    from readexactly_inv_step [OF assms(6) this, of FeedEof] obtain T1 where
      i1: "readexactly_inv n T1 ?c1" and e1: "eof (stream_of ?c1)" by auto
    have r: "run_loop ?call es ?c0 = run_loop ?call post ?c1"
      by (simp add: that(1) run_loop_append)
    from readexactly_inv_run_loop(1) [OF assms(6) i1, of post] e1 r assms(7)
    have "readexactly_inv n T1 (st, outs, s)" by simp
    then have "returned outs @ collected st @ remaining s = T1"
      by (simp add: readexactly_inv_def)
    with p(1) have T1: "T1 = ?T" by simp
    from i1 have "returned outs1 @ collected st1 @ remaining s1 = T1"
      by (simp add: readexactly_inv_def c1)
    then have "length (returned outs1) + length (collected st1) + length (remaining s1)
               = length ?T"
      using T1 by (metis length_append add.assoc)
    then have "length (remaining s1) \<le> length ?T" by simp
    then have b: "calls_left ?c1 \<le> Suc (length ?T)"
      using calls_left_le [of st1 outs1 s1] by (simp add: c1)
    have j: "(\<exists>T. readexactly_inv n T ?c1) \<and> eof (stream_of ?c1)" using i1 e1 by blast
    from run_loop_potential
        [where J = "\<lambda>c. (\<exists>T. readexactly_inv n T c) \<and> eof (stream_of c)"
           and pot = calls_left and call = ?call,
         OF readexactly_left_step [OF assms(6)] j, of post]
      b that(2)
    have "calls_left (run_loop ?call post ?c1) = 0" by simp
    then have "calls_left (st, outs, s) = 0" using r assms(7) by simp
    then show ?thesis by (simp add: calls_left_0)
  qed
  show ?thesis
    apply (intro conjI)
    subgoal by (rule p(1))
    subgoal by (rule e)
    subgoal by (rule p(2))
    subgoal by (rule d)
    subgoal by (rule p(3))
    subgoal using last by blast
    subgoal using ends by blast
    done
qed

definition readexactly_events :: "event list" where
  \<comment> \<open>the first call waits three times, the second meets EOF\<close>
  "readexactly_events =
     [Run, Feed ''ab'', Run, Feed ''c'', Run, Feed ''de'', Run, Feed ''fg'', FeedEof, Run, Run]"

lemma ex_readexactly_loop:
  "fst (run_loop (readexactly 5) readexactly_events (Idle, [], StreamReader_init 10)) = Done"
  "fst (snd (run_loop (readexactly 5) readexactly_events (Idle, [], StreamReader_init 10)))
     = [Return ''abcde'', Raise (IncompleteReadError ''fg'' 5)]"
  "fed False readexactly_events = ''abcdefg''"
  "fst (run_loop (readexactly 5) (take 5 readexactly_events) (Idle, [], StreamReader_init 10))
     = Waiting 2 (InReadexactly [''ab'', ''c''] 2)"
  by code_simp+

theorem readexactly_exact_or_incomplete_witness:
  "well_formed (StreamReader_init 10) \<and> exception (StreamReader_init 10) = None
   \<and> \<not> eof (StreamReader_init 10) \<and> waiter (StreamReader_init 10) = None
   \<and> eof_waiter (StreamReader_init 10) = None \<and> (0::int) < 5
   \<and> fst (run_loop (readexactly 5) readexactly_events (Idle, [], StreamReader_init 10)) = Done
   \<and> fst (snd (run_loop (readexactly 5) readexactly_events (Idle, [], StreamReader_init 10)))
        = [Return ''abcde'', Raise (IncompleteReadError ''fg'' 5)]
   \<and> fed False readexactly_events = ''abcdefg''
   \<and> eof (snd (snd (run_loop (readexactly 5) readexactly_events
                       (Idle, [], StreamReader_init 10))))
   \<and> remaining (snd (snd (run_loop (readexactly 5) readexactly_events
                             (Idle, [], StreamReader_init 10)))) = []"
proof -
  let ?r = "run_loop (readexactly 5) readexactly_events (Idle, [], StreamReader_init 10)"
  have r: "?r = (fst ?r, fst (snd ?r), snd (snd ?r))" by simp
  have n: "(0::int) < 5" by simp
  note t = readexactly_exact_or_incomplete
    [OF ex_fresh_ok(1) ex_fresh_ok(4) ex_fresh_ok(3) ex_fresh_empty(2) ex_fresh_eof_waiter n r]
  from t have a: "fst ?r = Done \<longrightarrow> eof (snd (snd ?r)) \<and> remaining (snd (snd ?r)) = []"
    by blast
  from a ex_readexactly_loop ex_fresh_ok ex_fresh_empty ex_fresh_eof_waiter show ?thesis
    by simp
qed

end
